theory Spec2Isabelle
  imports Complex_Main "HOL-Library.Char_ord" "HOL-Library.List_Lexorder"
begin

section \<open>Python values and exceptions\<close>

text \<open>
  The values that travel through \<^verbatim>\<open>my_chemyx_gui.py\<close>: arguments of the vendor
  connection's methods and the parameter values kept by the cache. Python's \<^verbatim>\<open>float\<close>
  is read as an exact real number (no rounding, no NaN, no infinity); \<^verbatim>\<open>int\<close> is
  unbounded. A dictionary is an association list with string keys, a \<^verbatim>\<open>PObj\<close> is
  any other object (a module, a class), known by its name only.
\<close>

datatype pyval =
    PNone
  | PBool bool
  | PInt int
  | PFloat real
  | PStr string
  | PList "pyval list"
  | PTuple "pyval list"
  | PDict "(string \<times> pyval) list"
  | PObj string

text \<open>The numeric value of a number; \<^verbatim>\<open>True\<close> and \<^verbatim>\<open>False\<close> are 1 and 0.\<close>

fun num_of :: "pyval \<Rightarrow> real option" where
  "num_of (PBool b) = Some (if b then 1 else 0)"
| "num_of (PInt i) = Some (real_of_int i)"
| "num_of (PFloat r) = Some r"
| "num_of _ = None"

text \<open>
  Python's \<^verbatim>\<open>==\<close>: numbers compare by value across \<^verbatim>\<open>bool\<close>, \<^verbatim>\<open>int\<close> and
  \<^verbatim>\<open>float\<close>; tuples and lists compare element by element and a list never equals a
  tuple; two dictionaries are equal when they hold the same items, whatever their order:
  every key of either one is a key of the other, with an equal value; other objects
  compare by identity (here: by name).
\<close>

primrec py_eq :: "pyval \<Rightarrow> pyval \<Rightarrow> bool" where
  "py_eq PNone y = (y = PNone)"
| "py_eq (PBool b) y = (num_of y = Some (if b then 1 else 0))"
| "py_eq (PInt i) y = (num_of y = Some (real_of_int i))"
| "py_eq (PFloat r) y = (num_of y = Some r)"
| "py_eq (PStr s) y = (y = PStr s)"
| "py_eq (PList xs) y =
     (case y of PList ys \<Rightarrow> list_all2 (\<lambda>f v. f v) (map py_eq xs) ys | _ \<Rightarrow> False)"
| "py_eq (PTuple xs) y =
     (case y of PTuple ys \<Rightarrow> list_all2 (\<lambda>f v. f v) (map py_eq xs) ys | _ \<Rightarrow> False)"
| "py_eq (PDict kvs) y =
     (case y of
        PDict kws \<Rightarrow>
          list_all (\<lambda>(k, f). case map_of kws k of None \<Rightarrow> False | Some w \<Rightarrow> f w)
            (map (map_prod id py_eq) kvs) \<and>
          list_all (\<lambda>(k, w). case map_of (map (map_prod id py_eq) kvs) k of
                              None \<Rightarrow> False | Some f \<Rightarrow> f w) kws
      | _ \<Rightarrow> False)"
| "py_eq (PObj n) y = (y = PObj n)"

datatype pyexc =
    NameError string
  | ValueError string
  | TypeError string
  | AttributeError string
  | ZeroDivisionError string
  | KeyError string
  | VendorError string

text \<open>
  \<^verbatim>\<open>str(e)\<close>: the message of an exception; for a \<^verbatim>\<open>KeyError\<close> it is the
  \<^verbatim>\<open>repr\<close> of the missing key, a string between single quotes.
\<close>

definition quoted :: "string \<Rightarrow> string" where
  "quoted s = CHR 0x27 # s @ [CHR 0x27]"

fun str_exc :: "pyexc \<Rightarrow> string" where
  "str_exc (NameError m) = m"
| "str_exc (KeyError k) = quoted k"
| "str_exc (ValueError m) = m"
| "str_exc (TypeError m) = m"
| "str_exc (AttributeError m) = m"
| "str_exc (ZeroDivisionError m) = m"
| "str_exc (VendorError m) = m"

section \<open>The vendor connection\<close>

text \<open>
  \<^verbatim>\<open>python_dist.CHEMYX_python.core.connect\<close> is the vendor's serial driver; the
  program only calls it. Its behaviour is a parameter: \<open>v_call\<close> runs a method on the
  driver's state \<open>'h\<close> and either raises or returns, \<open>v_multipump\<close> is the truth value of
  \<^verbatim>\<open>hasattr(c, 'multipump') and c.multipump\<close>, and \<open>v_currentPump\<close> is the text of
  \<^verbatim>\<open>getattr(c, 'currentPump', 1)\<close>.
\<close>

type_synonym kwargs = "(string \<times> pyval) list"

record 'h vendor =
  v_call :: "string \<Rightarrow> pyval list \<Rightarrow> kwargs \<Rightarrow> 'h \<Rightarrow> (pyexc + pyval) \<times> 'h"
  v_multipump :: "'h \<Rightarrow> bool"
  v_currentPump :: "'h \<Rightarrow> string"

text \<open>
  Modelled from the spec: the attributes of the vendor's \<^verbatim>\<open>Connection\<close> class, whose
  source is not part of the repository. The specification lists the methods it exposes
  (section 6, "Vendor hardware connection"); all of them are callable.
\<close>

definition vendor_methods :: "string list" where
  "vendor_methods =
     [''openConnection'', ''closeConnection'',
      ''setUnits'', ''setDiameter'', ''setVolume'', ''setMode'', ''setRate'',
      ''setDelay'', ''setTime'', ''setPump'',
      ''startPump'', ''stopPump'', ''pausePump'',
      ''getParameters'', ''getOpenPorts'']"

section \<open>CachedConnection\<close>

text \<open>
  The wrapper holds the vendor connection and the cache, a dictionary from cache key to
  the parameter value last sent. \<open>hw_calls\<close> is not a field of the class: it records, in
  order, every call that reached the vendor's method, so that "the hardware method is
  invoked" can be stated.
\<close>

record 'h cached_connection =
  connection :: 'h
  cache :: "string \<rightharpoonup> pyval"
  hw_calls :: "(string \<times> pyval list \<times> kwargs) list"

definition cacheable_methods :: "string list" where
  "cacheable_methods =
     [''setUnits'', ''setDiameter'', ''setVolume'', ''setMode'', ''setRate'',
      ''setDelay'', ''setTime'', ''setPump'']"

definition reset_cache :: "'h cached_connection \<Rightarrow> 'h cached_connection" where
  "reset_cache cc = cc\<lparr>cache := Map.empty\<rparr>"

definition make_cache_key :: "'h vendor \<Rightarrow> 'h cached_connection \<Rightarrow> string \<Rightarrow> string" where
  "make_cache_key V cc method_name =
     (if v_multipump V (connection cc)
      then method_name @ ''_pump_'' @ v_currentPump V (connection cc)
      else method_name)"

text \<open>
  \<^verbatim>\<open>tuple(sorted(d.items()))\<close>: the items of a dictionary are pairs with distinct
  keys, so sorting them orders them by key.
\<close>

definition sorted_items :: "(string \<times> pyval) list \<Rightarrow> pyval list" where
  "sorted_items kvs = map (\<lambda>(k, v). PTuple [PStr k, v]) (sort_key fst kvs)"

fun make_hashable :: "pyval \<Rightarrow> pyval" where
  "make_hashable (PList xs) = PTuple xs"
| "make_hashable (PDict kvs) = PTuple (sorted_items kvs)"
| "make_hashable item = item"

definition make_param_value :: "pyval list \<Rightarrow> kwargs \<Rightarrow> pyval" where
  "make_param_value args kws =
     PTuple [PTuple (map make_hashable args),
             PTuple (sorted_items (map (\<lambda>(k, v). (k, make_hashable v)) kws))]"

text \<open>A call of the vendor's own method: it is recorded in \<open>hw_calls\<close>.\<close>

definition original_method ::
  "'h vendor \<Rightarrow> string \<Rightarrow> pyval list \<Rightarrow> kwargs \<Rightarrow> 'h cached_connection \<Rightarrow>
     (pyexc + pyval) \<times> 'h cached_connection" where
  "original_method V name args kws cc =
     (case v_call V name args kws (connection cc) of
        (result, h) \<Rightarrow>
          (result, cc\<lparr>connection := h, hw_calls := hw_calls cc @ [(name, args, kws)]\<rparr>))"

text \<open>
  The closure \<^verbatim>\<open>cached_method\<close> that \<^verbatim>\<open>__getattr__\<close> returns for a cacheable
  method. On a hit nothing happens and \<^verbatim>\<open>None\<close> is returned; on a miss the vendor's
  method runs and, when it returns, the parameter value is stored under the key that was
  computed before the call. When the vendor's method raises, nothing is stored.
\<close>

definition cached_method ::
  "'h vendor \<Rightarrow> string \<Rightarrow> pyval list \<Rightarrow> kwargs \<Rightarrow> 'h cached_connection \<Rightarrow>
     (pyexc + pyval) \<times> 'h cached_connection" where
  "cached_method V name args kws cc =
     (let cache_key = make_cache_key V cc name;
          param_value = make_param_value args kws
      in if (case cache cc cache_key of None \<Rightarrow> False | Some old \<Rightarrow> py_eq old param_value)
         then (Inr PNone, cc)
         else (case original_method V name args kws cc of
                 (Inl e, cc') \<Rightarrow> (Inl e, cc')
               | (Inr result, cc') \<Rightarrow>
                   (Inr result, cc'\<lparr>cache := (cache cc')(cache_key \<mapsto> param_value)\<rparr>)))"

text \<open>
  \<^verbatim>\<open>cc.name(*args, **kwargs)\<close> for a name that is not one of the wrapper's own:
  \<^verbatim>\<open>__getattribute__\<close> hands an attribute of the vendor connection to
  \<^verbatim>\<open>__getattr__\<close>, which returns the vendor's method itself unless the name is
  cacheable; a name the vendor connection does not have ends in \<^verbatim>\<open>AttributeError\<close>
  before any argument is looked at.
\<close>

definition getattr_error :: "string \<Rightarrow> pyexc" where
  "getattr_error name =
     AttributeError (quoted ''Connection'' @ '' object has no attribute '' @ quoted name)"

definition call_method ::
  "'h vendor \<Rightarrow> string \<Rightarrow> pyval list \<Rightarrow> kwargs \<Rightarrow> 'h cached_connection \<Rightarrow>
     (pyexc + pyval) \<times> 'h cached_connection" where
  "call_method V name args kws cc =
     (if name \<notin> set vendor_methods then (Inl (getattr_error name), cc)
      else if name \<notin> set cacheable_methods then original_method V name args kws cc
      else cached_method V name args kws cc)"

section \<open>Steps, loop frames and configuration\<close>

text \<open>
  A step is \<^verbatim>\<open>{'function': ..., 'params': {...}}\<close>; the parameter values are numbers,
  an \<^verbatim>\<open>int\<close> (from a spin box or a JSON integer) or a \<^verbatim>\<open>float\<close>.
\<close>

datatype number = NInt int | NFloat real

record step =
  function_name :: string
  params :: "string \<rightharpoonup> number"

text \<open>
  The list \<^verbatim>\<open>self.steps\<close> holds dictionaries. The step dialog builds them with both
  keys, but \<^verbatim>\<open>load_program\<close> takes whatever list the program file holds, so a
  dictionary of the list may lack \<^verbatim>\<open>'function'\<close> or \<^verbatim>\<open>'params'\<close>: a
  \<open>step_dict\<close> has each of the two entries or not, and \<open>step\<close> is the pair of values of
  a dictionary that has both. \<^verbatim>\<open>step['function']\<close> and \<^verbatim>\<open>step['params']\<close> raise
  \<^verbatim>\<open>KeyError\<close> for a missing key. Left out are the items of a program file that are
  not dictionaries, for which the same subscripts raise \<^verbatim>\<open>TypeError\<close>, and the
  entries of other types: a function that is not a string matches no branch of the
  dispatch, and parameters that are not a dictionary of numbers can only make the
  dispatch raise inside its \<^verbatim>\<open>try\<close>, like a negative sleep does.
\<close>

record step_dict =
  function_key :: "string option"
  params_key :: "(string \<rightharpoonup> number) option"

definition as_dict :: "step \<Rightarrow> step_dict" where
  "as_dict st = \<lparr>function_key = Some (function_name st), params_key = Some (params st)\<rparr>"

definition subscript_function :: "step_dict \<Rightarrow> pyexc + string" where
  "subscript_function d =
     (case function_key d of None \<Rightarrow> Inl (KeyError ''function'') | Some f \<Rightarrow> Inr f)"

definition subscript_params :: "step_dict \<Rightarrow> pyexc + (string \<rightharpoonup> number)" where
  "subscript_params d =
     (case params_key d of None \<Rightarrow> Inl (KeyError ''params'') | Some ps \<Rightarrow> Inr ps)"

text \<open>\<^verbatim>\<open>float(x)\<close> and \<^verbatim>\<open>int(x)\<close> of a number; \<^verbatim>\<open>int\<close> truncates towards zero.\<close>

fun py_float :: "number \<Rightarrow> real" where
  "py_float (NInt i) = real_of_int i"
| "py_float (NFloat r) = r"

fun py_int :: "number \<Rightarrow> int" where
  "py_int (NInt i) = i"
| "py_int (NFloat r) = (if 0 \<le> r then \<lfloor>r\<rfloor> else \<lceil>r\<rceil>)"

text \<open>\<^verbatim>\<open>params.get(key, default)\<close>.\<close>

definition params_get :: "(string \<rightharpoonup> number) \<Rightarrow> string \<Rightarrow> number \<Rightarrow> number" where
  "params_get p key dflt = (case p key of None \<Rightarrow> dflt | Some v \<Rightarrow> v)"

record loop_frame =
  start_index :: nat
  iterations :: int
  current_iteration :: int

record config =
  port :: pyval
  baudrate :: pyval
  diameter :: pyval
  max_volume :: pyval
  max_rate :: pyval

section \<open>StepExecutor\<close>

text \<open>
  What a run does to the outside, in order: the three Qt signals, the calls the executor
  makes on its connection (\<open>invoked\<close>, whether or not the cache lets them through to the
  vendor), and the blocking sleeps.
\<close>

datatype event =
    step_changed nat
  | execution_finished
  | error_occurred string
  | invoked string "pyval list"
  | time_sleep real

record 'h step_executor =
  steps :: "step_dict list"
  exec_connection :: "'h cached_connection"
  exec_config :: config
  current_step :: nat
  stop_event :: bool
  pause_event :: bool
  loop_stack :: "loop_frame list"
  events :: "event list"

definition emit :: "event \<Rightarrow> 'h step_executor \<Rightarrow> 'h step_executor" where
  "emit e s = s\<lparr>events := events s @ [e]\<rparr>"

text \<open>Sequencing of statements that may raise: the first exception ends the block.\<close>

definition andthen ::
  "('e + 'a) \<times> 's \<Rightarrow> ('a \<Rightarrow> 's \<Rightarrow> ('e + 'b) \<times> 's) \<Rightarrow> ('e + 'b) \<times> 's" where
  "andthen r f = (case r of (Inl e, s) \<Rightarrow> (Inl e, s) | (Inr v, s) \<Rightarrow> f v s)"

text \<open>
  \<^verbatim>\<open>self.connection.name\<close>: the attribute lookup on the wrapper, which raises for a
  name the vendor connection does not have.
\<close>

definition connection_getattr ::
  "string \<Rightarrow> 'h step_executor \<Rightarrow> (pyexc + unit) \<times> 'h step_executor" where
  "connection_getattr name s =
     (if name \<in> set vendor_methods then (Inr (), s) else (Inl (getattr_error name), s))"

text \<open>\<^verbatim>\<open>self.connection.name(*args)\<close> with arguments already evaluated.\<close>

definition connection_call ::
  "'h vendor \<Rightarrow> string \<Rightarrow> pyval list \<Rightarrow> 'h step_executor \<Rightarrow>
     (pyexc + pyval) \<times> 'h step_executor" where
  "connection_call V name args s =
     andthen (connection_getattr name s) (\<lambda>_ s.
       case call_method V name args [] (exec_connection s) of
         (r, cc) \<Rightarrow> (r, (emit (invoked name args) s)\<lparr>exec_connection := cc\<rparr>))"

text \<open>
  \<^verbatim>\<open>time.sleep(d)\<close> raises \<^verbatim>\<open>ValueError\<close> for a negative length and blocks
  otherwise.
\<close>

definition sleep :: "real \<Rightarrow> 'h step_executor \<Rightarrow> (pyexc + unit) \<times> 'h step_executor" where
  "sleep d s =
     (if d < 0 then (Inl (ValueError ''sleep length must be non-negative''), s)
      else (Inr (), emit (time_sleep d) s))"

text \<open>
  The names bound at module level in \<^verbatim>\<open>my_chemyx_gui.py\<close>: its imports, the logger,
  its four classes and the two variables of the main block. A name that a function
  reads without ever assigning it is looked up here (and then among the builtins, which
  are left out: \<open>load_name\<close> is only used for a name that is not a builtin).
\<close>

definition module_globals :: "string list" where
  "module_globals =
     [''sys'', ''time'', ''logging'', ''json'', ''os'', ''Thread'', ''Event'',
      ''QApplication'', ''QMainWindow'', ''QTabWidget'', ''QWidget'', ''QVBoxLayout'',
      ''QHBoxLayout'', ''QFormLayout'', ''QTableWidget'', ''QTableWidgetItem'',
      ''QPushButton'', ''QComboBox'', ''QLineEdit'', ''QLabel'', ''QSpinBox'',
      ''QDoubleSpinBox'', ''QGroupBox'', ''QMessageBox'', ''QHeaderView'',
      ''QProgressBar'', ''QDialog'', ''QFileDialog'', ''Qt'', ''QTimer'', ''pyqtSignal'',
      ''QObject'', ''QDoubleValidator'', ''QColor'', ''connect'', ''logger'',
      ''CachedConnection'', ''StepExecutor'', ''MyChemyxGUI'', ''StepParameterDialog'',
      ''app'', ''gui'']"

definition load_name :: "string \<Rightarrow> pyexc + pyval" where
  "load_name name =
     (if name \<in> set module_globals then Inr (PObj name)
      else Inl (NameError (''name '' @ quoted name @ '' is not defined'')))"

text \<open>\<^verbatim>\<open>x > 0\<close> and \<^verbatim>\<open>x / y\<close> for an object \<open>x\<close> and a float \<open>y\<close>.\<close>

definition py_gt_zero :: "pyval \<Rightarrow> pyexc + bool" where
  "py_gt_zero x =
     (case num_of x of
        None \<Rightarrow> Inl (TypeError ''> not supported between these operands'')
      | Some r \<Rightarrow> Inr (0 < r))"

definition py_truediv :: "pyval \<Rightarrow> real \<Rightarrow> pyexc + real" where
  "py_truediv x y =
     (case num_of x of
        None \<Rightarrow> Inl (TypeError ''unsupported operand type(s) for /'')
      | Some r \<Rightarrow> if y = 0 then Inl (ZeroDivisionError ''float division by zero'')
                  else Inr (r / y))"

text \<open>
  \<^verbatim>\<open>_execute_pump_operation\<close>, statement by statement. \<^verbatim>\<open>actual_volume\<close> is not a
  parameter and is assigned nowhere in the function, so each of its three occurrences is
  a lookup by \<open>load_name\<close>. In \<^verbatim>\<open>self.connection.setVolume(actual_volume)\<close> the method
  is looked up before the argument is evaluated.
\<close>

definition execute_pump_operation ::
  "'h vendor \<Rightarrow> real \<Rightarrow> real \<Rightarrow> bool \<Rightarrow> 'h step_executor \<Rightarrow>
     (pyexc + unit) \<times> 'h step_executor" where
  "execute_pump_operation V volume rate wait_for_completion s0 =
     andthen (connection_call V ''setUnits'' [PStr ''mL/min''] s0) (\<lambda>_ s.
     andthen (connection_call V ''setDiameter'' [diameter (exec_config s)] s) (\<lambda>_ s.
     andthen (if volume < 0 then connection_call V ''setMode'' [PInt 1] s
              else connection_call V ''setMode'' [PInt 0] s) (\<lambda>_ s.
     andthen (connection_getattr ''setVolume'' s) (\<lambda>_ s.
     andthen (load_name ''actual_volume'', s) (\<lambda>actual_volume s.
     andthen (connection_call V ''setVolume'' [actual_volume] s) (\<lambda>_ s.
     andthen (connection_call V ''setRate'' [PFloat \<bar>rate\<bar>] s) (\<lambda>_ s.
     andthen (connection_call V ''startPump'' [] s) (\<lambda>_ s.
       if wait_for_completion then
         andthen (load_name ''actual_volume'', s) (\<lambda>actual_volume s.
         andthen (py_gt_zero actual_volume, s) (\<lambda>positive s.
           if positive then
             andthen (load_name ''actual_volume'', s) (\<lambda>actual_volume s.
             andthen (py_truediv actual_volume \<bar>rate\<bar>, s) (\<lambda>q s.
               sleep (q * 60 + 1) s))
           else (Inr (), s)))
       else (Inr (), s)))))))))"

definition pump_volume ::
  "'h vendor \<Rightarrow> real \<Rightarrow> real \<Rightarrow> 'h step_executor \<Rightarrow> (pyexc + unit) \<times> 'h step_executor" where
  "pump_volume V volume rate s = execute_pump_operation V volume rate True s"

text \<open>The volume that \<^verbatim>\<open>_pump_time\<close> computes from the duration and the rate.\<close>

definition pump_time_volume :: "real \<Rightarrow> real \<Rightarrow> real" where
  "pump_time_volume duration rate =
     (let volume = \<bar>rate\<bar> * duration / 60
      in if rate < 0 then - volume else volume)"

definition pump_time ::
  "'h vendor \<Rightarrow> real \<Rightarrow> real \<Rightarrow> 'h step_executor \<Rightarrow> (pyexc + unit) \<times> 'h step_executor" where
  "pump_time V duration rate s =
     andthen (execute_pump_operation V (pump_time_volume duration rate) \<bar>rate\<bar> False s)
       (\<lambda>_ s. sleep (duration + 1) s)"

definition wait :: "real \<Rightarrow> 'h step_executor \<Rightarrow> (pyexc + unit) \<times> 'h step_executor" where
  "wait duration s = sleep duration s"

text \<open>
  \<^verbatim>\<open>_initialize_pump_state\<close>; the connection is a \<^verbatim>\<open>CachedConnection\<close>, which has
  \<^verbatim>\<open>reset_cache\<close>.
\<close>

definition initialize_pump_state ::
  "'h vendor \<Rightarrow> 'h step_executor \<Rightarrow> (pyexc + unit) \<times> 'h step_executor" where
  "initialize_pump_state V s0 =
     (let s = s0\<lparr>exec_connection := reset_cache (exec_connection s0)\<rparr>
      in andthen (connection_call V ''setUnits'' [PStr ''mL/min''] s) (\<lambda>_ s.
         andthen (connection_call V ''setDiameter'' [diameter (exec_config s)] s) (\<lambda>_ s.
           (Inr (), s))))"

text \<open>The body of the \<^verbatim>\<open>try\<close> block of \<^verbatim>\<open>execute_single_step\<close>.\<close>

definition start_loop :: "int \<Rightarrow> 'h step_executor \<Rightarrow> 'h step_executor" where
  "start_loop n s =
     s\<lparr>loop_stack := loop_stack s @
          [\<lparr>start_index = current_step s, iterations = n, current_iteration = 0\<rparr>]\<rparr>"

definition end_loop :: "'h step_executor \<Rightarrow> 'h step_executor" where
  "end_loop s =
     (if loop_stack s = [] then s
      else
        let loop = (last (loop_stack s))
                     \<lparr>current_iteration := current_iteration (last (loop_stack s)) + 1\<rparr>
        in if current_iteration loop < iterations loop
           then s\<lparr>loop_stack := butlast (loop_stack s) @ [loop],
                  current_step := start_index loop\<rparr>
           else s\<lparr>loop_stack := butlast (loop_stack s)\<rparr>)"

definition step_dispatch ::
  "'h vendor \<Rightarrow> step \<Rightarrow> 'h step_executor \<Rightarrow> (pyexc + unit) \<times> 'h step_executor" where
  "step_dispatch V st s =
     (let function = function_name st; ps = params st in
      if function = ''pump_volume'' then
        pump_volume V (py_float (params_get ps ''volume'' (NInt 0)))
          (py_float (params_get ps ''rate'' (NInt 1))) s
      else if function = ''pump_time'' then
        pump_time V (py_float (params_get ps ''time'' (NInt 1)))
          (py_float (params_get ps ''rate'' (NInt 1))) s
      else if function = ''wait'' then
        wait (py_float (params_get ps ''time'' (NInt 1))) s
      else if function = ''start_loop'' then
        (Inr (), start_loop (py_int (params_get ps ''iterations'' (NInt 1))) s)
      else if function = ''end_loop'' then (Inr (), end_loop s)
      else (Inr (), s))"

text \<open>\<^verbatim>\<open>str(n)\<close> for a natural number, used by the error message.\<close>

function str_nat :: "nat \<Rightarrow> string" where
  "str_nat n =
     (if n < 10 then [''0123456789'' ! n]
      else str_nat (n div 10) @ [''0123456789'' ! (n mod 10)])"
  by pat_completeness auto
termination
  by (relation "measure id") auto

declare str_nat.simps [simp del]

text \<open>
  The \<^verbatim>\<open>try\<close> statement of \<^verbatim>\<open>execute_single_step\<close>: the dispatch, with
  \<^verbatim>\<open>return True\<close> at its end, and the handler that emits the error signal and
  returns \<^verbatim>\<open>False\<close>.
\<close>

definition try_step ::
  "'h vendor \<Rightarrow> step \<Rightarrow> 'h step_executor \<Rightarrow> bool \<times> 'h step_executor" where
  "try_step V st s =
     (case step_dispatch V st s of
        (Inr _, s') \<Rightarrow> (True, s')
      | (Inl e, s') \<Rightarrow>
          (False,
           emit (error_occurred (''Step '' @ str_nat (current_step s' + 1) @ '': '' @ str_exc e))
             s'))"

text \<open>
  \<^verbatim>\<open>execute_single_step\<close>: the two subscripts stand before the \<^verbatim>\<open>try\<close>, so a
  \<^verbatim>\<open>KeyError\<close> of theirs leaves the function.
\<close>

definition execute_single_step ::
  "'h vendor \<Rightarrow> step_dict \<Rightarrow> 'h step_executor \<Rightarrow> (pyexc + bool) \<times> 'h step_executor" where
  "execute_single_step V d s0 =
     andthen (subscript_function d, s0) (\<lambda>function s.
     andthen (subscript_params d, s) (\<lambda>ps s.
       case try_step V \<lparr>function_name = function, params = ps\<rparr> s of
         (ok, s') \<Rightarrow> (Inr ok, s')))"

text \<open>
  \<^verbatim>\<open>stop\<close>, \<^verbatim>\<open>pause\<close> and \<^verbatim>\<open>resume\<close>, which the GUI thread calls. The wrapper
  answers \<^verbatim>\<open>hasattr\<close> for every method of the vendor connection. An exception of
  \<^verbatim>\<open>stopPump\<close> or \<^verbatim>\<open>pausePump\<close> is raised in the GUI thread, after the flag is set.
\<close>

definition stop :: "'h vendor \<Rightarrow> 'h step_executor \<Rightarrow> (pyexc + unit) \<times> 'h step_executor" where
  "stop V s0 =
     (let s = s0\<lparr>stop_event := True\<rparr>
      in if ''stopPump'' \<in> set vendor_methods
         then andthen (connection_call V ''stopPump'' [] s) (\<lambda>_ s. (Inr (), s))
         else (Inr (), s))"

definition pause :: "'h vendor \<Rightarrow> 'h step_executor \<Rightarrow> (pyexc + unit) \<times> 'h step_executor" where
  "pause V s0 =
     (let s = s0\<lparr>pause_event := True\<rparr>
      in if ''pausePump'' \<in> set vendor_methods
         then andthen (connection_call V ''pausePump'' [] s) (\<lambda>_ s. (Inr (), s))
         else (Inr (), s))"

definition resume :: "'h step_executor \<Rightarrow> 'h step_executor" where
  "resume s = s\<lparr>pause_event := False\<rparr>"

text \<open>
  A call that the GUI thread makes on the executor while the worker thread runs; what it
  raises stays in the GUI thread, so the worker only sees the state it leaves.
\<close>

datatype gui_action = call_stop | call_pause | call_resume

fun gui_call :: "'h vendor \<Rightarrow> gui_action \<Rightarrow> 'h step_executor \<Rightarrow> 'h step_executor" where
  "gui_call V call_stop s = snd (stop V s)"
| "gui_call V call_pause s = snd (pause V s)"
| "gui_call V call_resume s = resume s"

text \<open>
  The \<^verbatim>\<open>while\<close> loop of \<^verbatim>\<open>execute_steps\<close>, which runs in the worker thread while
  the GUI thread calls \<^verbatim>\<open>stop\<close>, \<^verbatim>\<open>pause\<close> and \<^verbatim>\<open>resume\<close>. The worker looks at
  the flags at three places: the loop condition (\<^verbatim>\<open>stop_event.is_set()\<close>), the test
  \<^verbatim>\<open>pause_event.is_set()\<close>, and \<^verbatim>\<open>pause_event.wait()\<close>. \<^verbatim>\<open>Event.wait()\<close>
  returns at once when the flag is set; when it is clear, the thread blocks until a
  call of \<^verbatim>\<open>set()\<close>, which here only \<^verbatim>\<open>pause\<close> makes. So the worker is at one of
  four places: about to test the loop condition, about to test the pause flag, about to
  enter \<^verbatim>\<open>wait()\<close>, or blocked inside it.

  A run is driven by a schedule: for each look of the worker at the flags, the calls
  the GUI thread has made since the look before (calls that arrive while a step
  executes count for the next look; for a blocked worker an entry is any stretch of
  time). The result is \<open>None\<close> when the schedule ends with the worker still in the loop,
  and otherwise how the loop was left, by an exception or not, and the state then.
\<close>

datatype worker = at_test | at_is_set | at_wait | blocked

fun execute_loop ::
  "'h vendor \<Rightarrow> gui_action list list \<Rightarrow> worker \<Rightarrow> 'h step_executor \<Rightarrow>
     ((pyexc + unit) \<times> 'h step_executor) option" where
  "execute_loop V [] w s =
     (if w = at_test \<and> \<not> (current_step s < length (steps s) \<and> \<not> stop_event s)
      then Some (Inr (), s) else None)"
| "execute_loop V (calls # schedule) w s0 =
     (let s = fold (gui_call V) calls s0 in
      case w of
        at_test \<Rightarrow>
          if current_step s < length (steps s) \<and> \<not> stop_event s
          then execute_loop V schedule at_is_set s
          else Some (Inr (), s)
      | at_is_set \<Rightarrow>
          if pause_event s then execute_loop V schedule at_wait s
          else
            (case execute_single_step V (steps s ! current_step s)
                    (emit (step_changed (current_step s)) s) of
               (Inl e, s') \<Rightarrow> Some (Inl e, s')
             | (Inr False, s') \<Rightarrow> Some (Inr (), s')
             | (Inr True, s') \<Rightarrow>
                 execute_loop V schedule at_test (s'\<lparr>current_step := current_step s' + 1\<rparr>))
      | at_wait \<Rightarrow>
          if pause_event s then execute_loop V schedule at_test s
          else execute_loop V schedule blocked s
      | blocked \<Rightarrow>
          if call_pause \<in> set calls then execute_loop V schedule at_test s
          else execute_loop V schedule blocked s)"

text \<open>
  \<^verbatim>\<open>execute_steps\<close>: an exception of the initialisation or of the loop is reported by
  its message alone, and the finished signal is emitted whenever the function is left.
\<close>

definition execute_steps ::
  "'h vendor \<Rightarrow> gui_action list list \<Rightarrow> 'h step_executor \<Rightarrow> 'h step_executor option" where
  "execute_steps V schedule s =
     (case initialize_pump_state V s of
        (Inl e, s') \<Rightarrow> Some (emit execution_finished (emit (error_occurred (str_exc e)) s'))
      | (Inr _, s') \<Rightarrow>
          (case execute_loop V schedule at_test (s'\<lparr>current_step := 0\<rparr>) of
             None \<Rightarrow> None
           | Some (Inl e, s'') \<Rightarrow>
               Some (emit execution_finished (emit (error_occurred (str_exc e)) s''))
           | Some (Inr _, s'') \<Rightarrow> Some (emit execution_finished s'')))"

text \<open>
  \<^verbatim>\<open>StepExecutor.__init__\<close>: a new executor starts at step 0 with both flags clear
  and an empty loop stack.
\<close>

definition StepExecutor ::
  "step_dict list \<Rightarrow> 'h cached_connection \<Rightarrow> config \<Rightarrow> 'h step_executor" where
  "StepExecutor sts cc cfg =
     \<lparr>steps = sts, exec_connection = cc, exec_config = cfg, current_step = 0,
      stop_event = False, pause_event = False, loop_stack = [], events = []\<rparr>"


section \<open>Saving and loading a program\<close>

text \<open>
  Modelled from the spec: the program file is a "JSON array of Step objects,
  {function, params}, written/read verbatim" (section 6). \<^verbatim>\<open>json.dump\<close> and
  \<^verbatim>\<open>json.load\<close> are Python's, not the repository's, and a file is taken to hold the
  JSON document that was written, not its text: \<open>json\<close> is a document, a number being an
  integer or not as its text has a fraction or an exponent or not. \<open>json_dump\<close> is the
  document that \<^verbatim>\<open>json.dump\<close> writes for a Python value: a tuple becomes an array like
  a list, and an object of any other kind raises \<^verbatim>\<open>TypeError\<close> (here: no document).
  \<open>json_load\<close> is the value that \<^verbatim>\<open>json.load\<close> builds: an array becomes a list, and
  in an object that repeats a name the last value wins, at the place of the first
  (\<open>dict_set\<close> is the assignment \<^verbatim>\<open>d[k] = v\<close>).
\<close>

datatype json =
    JNull
  | JBool bool
  | JInt int
  | JFloat real
  | JString string
  | JArray "json list"
  | JObject "(string \<times> json) list"

text \<open>
  Modelled from the spec: the program file is "written ... verbatim" (section 6), by
  \<^verbatim>\<open>json.dump\<close>.
\<close>

primrec json_dump :: "pyval \<Rightarrow> json option" where
  "json_dump PNone = Some JNull"
| "json_dump (PBool b) = Some (JBool b)"
| "json_dump (PInt i) = Some (JInt i)"
| "json_dump (PFloat r) = Some (JFloat r)"
| "json_dump (PStr s) = Some (JString s)"
| "json_dump (PList xs) = map_option JArray (those (map json_dump xs))"
| "json_dump (PTuple xs) = map_option JArray (those (map json_dump xs))"
| "json_dump (PDict kvs) =
     map_option JObject
       (those (map (\<lambda>(k, j). map_option (Pair k) j) (map (map_prod id json_dump) kvs)))"
| "json_dump (PObj n) = None"

text \<open>
  Modelled from the spec: the members of a JSON object are "read verbatim" (section 6)
  into a dictionary, by the assignments \<^verbatim>\<open>d[k] = v\<close> in the order of the document.
\<close>

definition dict_set :: "string \<Rightarrow> 'a \<Rightarrow> (string \<times> 'a) list \<Rightarrow> (string \<times> 'a) list" where
  "dict_set k v d =
     (if k \<in> fst ` set d then map (\<lambda>(k', v'). if k' = k then (k', v) else (k', v')) d
      else d @ [(k, v)])"

text \<open>Modelled from the spec: the dictionary that a JSON object is read into.\<close>

definition dict_of :: "(string \<times> 'a) list \<Rightarrow> (string \<times> 'a) list" where
  "dict_of kvs = fold (\<lambda>(k, v). dict_set k v) kvs []"

text \<open>
  Modelled from the spec: the program file is "read verbatim" (section 6), by
  \<^verbatim>\<open>json.load\<close>.
\<close>

primrec json_load :: "json \<Rightarrow> pyval" where
  "json_load JNull = PNone"
| "json_load (JBool b) = PBool b"
| "json_load (JInt i) = PInt i"
| "json_load (JFloat r) = PFloat r"
| "json_load (JString s) = PStr s"
| "json_load (JArray js) = PList (map json_load js)"
| "json_load (JObject kvs) = PDict (dict_of (map (map_prod id json_load) kvs))"

text \<open>
  The part of \<^verbatim>\<open>MyChemyxGUI\<close> that saving and loading touch: the list
  \<^verbatim>\<open>self.steps\<close>, the name of the auto-save file, and the file system, a map from
  paths to what the files hold. \<^verbatim>\<open>json.dump\<close> writes piece by piece, so a dump that
  raises leaves a file that holds no document. Opening a file for writing is taken to
  succeed; opening a missing file for reading, or reading a file that holds no
  document, raises. A message box is known by its kind, not its text.
\<close>

datatype file_content = Document json | Truncated

datatype message_box = information | critical

record gui_state =
  gui_steps :: pyval
  steps_file :: string
  files :: "string \<rightharpoonup> file_content"

text \<open>
  \<^verbatim>\<open>with open(path, 'w') as f: json.dump(obj, f, indent=2)\<close>, with whether it
  completed, and \<^verbatim>\<open>with open(path, 'r') as f: json.load(f)\<close>, with \<open>None\<close> when it
  raises.
\<close>

definition dump_to_file ::
  "string \<Rightarrow> pyval \<Rightarrow> (string \<rightharpoonup> file_content) \<Rightarrow> bool \<times> (string \<rightharpoonup> file_content)" where
  "dump_to_file path obj fs =
     (case json_dump obj of
        None \<Rightarrow> (False, fs(path \<mapsto> Truncated))
      | Some j \<Rightarrow> (True, fs(path \<mapsto> Document j)))"

definition load_from_file :: "string \<Rightarrow> (string \<rightharpoonup> file_content) \<Rightarrow> pyval option" where
  "load_from_file path fs =
     (case fs path of Some (Document j) \<Rightarrow> Some (json_load j) | _ \<Rightarrow> None)"

text \<open>
  \<^verbatim>\<open>save_program\<close> and \<^verbatim>\<open>load_program\<close>. \<open>file_path\<close> is what the file dialog
  returned, empty when the user cancelled; the result is the message box shown, if
  any, and the state afterwards. \<^verbatim>\<open>load_program\<close> assigns \<^verbatim>\<open>self.steps\<close> before it
  refreshes the table, so the loaded list stays when the refresh raises;
  \<open>update_steps_table\<close> tells whether the refresh, which is Qt's business, completes on
  a list. \<^verbatim>\<open>auto_save_steps\<close> logs and swallows what its dump raises.
\<close>

definition save_program :: "string \<Rightarrow> gui_state \<Rightarrow> message_box option \<times> gui_state" where
  "save_program file_path g =
     (if file_path = [] then (None, g)
      else case dump_to_file file_path (gui_steps g) (files g) of
             (True, fs) \<Rightarrow> (Some information, g\<lparr>files := fs\<rparr>)
           | (False, fs) \<Rightarrow> (Some critical, g\<lparr>files := fs\<rparr>))"

definition auto_save_steps :: "gui_state \<Rightarrow> gui_state" where
  "auto_save_steps g =
     g\<lparr>files := snd (dump_to_file (steps_file g) (gui_steps g) (files g))\<rparr>"

definition load_program ::
  "(pyval \<Rightarrow> bool) \<Rightarrow> string \<Rightarrow> gui_state \<Rightarrow> message_box option \<times> gui_state" where
  "load_program update_steps_table file_path g =
     (if file_path = [] then (None, g)
      else case load_from_file file_path (files g) of
             None \<Rightarrow> (Some critical, g)
           | Some v \<Rightarrow>
               let g1 = g\<lparr>gui_steps := v\<rparr>
               in if update_steps_table v then (Some information, auto_save_steps g1)
                  else (Some critical, g1))"

section \<open>Vocabulary of the properties\<close>

text \<open>The exception that reading \<^verbatim>\<open>actual_volume\<close> raises.\<close>

definition name_error :: pyexc where
  "name_error = NameError (''name '' @ quoted ''actual_volume'' @ '' is not defined'')"


text \<open>What happened between two states of an executor.\<close>

definition new_events :: "'h step_executor \<Rightarrow> 'h step_executor \<Rightarrow> event list" where
  "new_events s s' = drop (length (events s)) (events s')"


text \<open>Events that are not signals: connection calls and sleeps.\<close>

fun is_effect :: "event \<Rightarrow> bool" where
  "is_effect (invoked _ _) = True"
| "is_effect (time_sleep _) = True"
| "is_effect _ = False"

definition setters :: "string set" where
  "setters = {''setUnits'', ''setDiameter'', ''setMode''}"

text \<open>
  \<open>extends s s'\<close>: \<open>s'\<close> comes from \<open>s\<close> by connection calls and sleeps, the only vendor
  methods reached being \<^verbatim>\<open>setUnits\<close>, \<^verbatim>\<open>setDiameter\<close> and \<^verbatim>\<open>setMode\<close>; the
  program, the step index, the flags and the loop stack are untouched.
\<close>

definition extends :: "'h step_executor \<Rightarrow> 'h step_executor \<Rightarrow> bool" where
  "extends s s' \<longleftrightarrow>
     steps s' = steps s \<and> current_step s' = current_step s \<and> loop_stack s' = loop_stack s \<and>
     exec_config s' = exec_config s \<and>
     stop_event s' = stop_event s \<and> pause_event s' = pause_event s \<and>
     (\<exists>ev. events s' = events s @ ev \<and> list_all is_effect ev) \<and>
     (\<exists>hw. hw_calls (exec_connection s') = hw_calls (exec_connection s) @ hw \<and>
           list_all (\<lambda>c. fst c \<in> setters) hw)"

text \<open>
  Concrete inputs for the examples: a vendor connection that accepts every call, a
  wrapper around it with an empty cache, the configuration that
  \<^verbatim>\<open>MyChemyxGUI.__init__\<close> sets, and an executor built from them for a program of
  steps that have both keys.
\<close>

definition accepting_vendor :: "unit vendor" where
  "accepting_vendor =
     \<lparr>v_call = (\<lambda>name args kws h. (Inr PNone, h)),
      v_multipump = (\<lambda>h. False),
      v_currentPump = (\<lambda>h. ''1'')\<rparr>"

definition fresh_connection :: "unit cached_connection" where
  "fresh_connection = \<lparr>connection = (), cache = Map.empty, hw_calls = []\<rparr>"

definition default_config :: config where
  "default_config =
     \<lparr>port = PStr ''COM4'', baudrate = PInt 38400, diameter = PFloat 28.6,
      max_volume = PInt 20, max_rate = PInt 100\<rparr>"

definition example_executor :: "step list \<Rightarrow> unit step_executor" where
  "example_executor sts = StepExecutor (map as_dict sts) fresh_connection default_config"

section \<open>Vocabulary of the cache properties\<close>

text \<open>
  Modelled from the spec: "Equality is value-based (lists treated as ordered tuples,
  dictionaries as sorted key/value pairs) - not object identity" (section 4.1).
  \<open>treated_as a\<close> is the sequence that a list, a tuple or a dictionary stands for: its
  elements in order, or its (key, value) pairs in key order. Two arguments are
  value-equal when both stand for sequences whose elements are equal one by one, or
  neither does and they are equal. Two calls have the same arguments when their
  positional arguments are value-equal one by one and their keyword arguments, taken in
  key order, have the same names and value-equal values.
\<close>

fun treated_as :: "pyval \<Rightarrow> pyval list option" where
  "treated_as (PList xs) = Some xs"
| "treated_as (PTuple xs) = Some xs"
| "treated_as (PDict kvs) = Some (map (\<lambda>(k, v). PTuple [PStr k, v]) (sort_key fst kvs))"
| "treated_as _ = None"

text \<open>
  Modelled from the spec: "Equality is value-based ... not object identity" (section
  4.1), for one argument.
\<close>

definition value_equal :: "pyval \<Rightarrow> pyval \<Rightarrow> bool" where
  "value_equal a b =
     (case (treated_as a, treated_as b) of
        (Some xs, Some ys) \<Rightarrow> list_all2 py_eq xs ys
      | (None, None) \<Rightarrow> py_eq a b
      | _ \<Rightarrow> False)"

text \<open>
  Modelled from the spec: "for equal argument tuples to a cacheable method" (section 8),
  for the positional and the keyword arguments of two calls.
\<close>

definition same_arguments :: "pyval list \<Rightarrow> kwargs \<Rightarrow> pyval list \<Rightarrow> kwargs \<Rightarrow> bool" where
  "same_arguments args kws args' kws' \<longleftrightarrow>
     list_all2 value_equal args args' \<and>
     list_all2 (\<lambda>(k, v) (k', v'). k = k' \<and> value_equal v v')
       (sort_key fst kws) (sort_key fst kws')"

text \<open>
  \<open>same_pump V cc cc'\<close>: the vendor connection is in the same pump mode in both states
  and, in multi-pump mode, has the same current pump.
\<close>

definition same_pump ::
  "'h vendor \<Rightarrow> 'h cached_connection \<Rightarrow> 'h cached_connection \<Rightarrow> bool" where
  "same_pump V cc cc' \<longleftrightarrow>
     v_multipump V (connection cc') = v_multipump V (connection cc) \<and>
     (v_multipump V (connection cc) \<longrightarrow>
        v_currentPump V (connection cc') = v_currentPump V (connection cc))"

text \<open>
  A vendor connection in multi-pump mode for the examples: its state is the number of
  the current pump, \<^verbatim>\<open>setPump(p)\<close> selects pump \<open>p\<close>, and every call is accepted.
\<close>

definition multipump_vendor :: "nat vendor" where
  "multipump_vendor =
     \<lparr>v_call = (\<lambda>name args kws h.
         if name = ''setPump'' then
           (case args of [PInt p] \<Rightarrow> (Inr PNone, nat p) | _ \<Rightarrow> (Inr PNone, h))
         else (Inr PNone, h)),
      v_multipump = (\<lambda>h. True),
      v_currentPump = str_nat\<rparr>"

section \<open>Vocabulary of the loop properties\<close>

text \<open>
  A plain step is a step that is not a pump step and not a loop step and does not raise:
  a \<^verbatim>\<open>wait\<close> with a non-negative time, or a step whose function the dispatch does not
  know (which does nothing). \<open>step_effects\<close> is what executing it adds to the events
  after its \<open>step_changed\<close>, \<open>body_events base body\<close> what one pass over \<open>body\<close>, placed
  at index \<open>base\<close>, emits.
\<close>

definition wait_time :: "step \<Rightarrow> real" where
  "wait_time st = py_float (params_get (params st) ''time'' (NInt 1))"

definition plain_step :: "step \<Rightarrow> bool" where
  "plain_step st =
     (if function_name st = ''wait'' then 0 \<le> wait_time st
      else function_name st \<notin> {''pump_volume'', ''pump_time'', ''start_loop'', ''end_loop''})"

definition step_effects :: "step \<Rightarrow> event list" where
  "step_effects st = (if function_name st = ''wait'' then [time_sleep (wait_time st)] else [])"

fun body_events :: "nat \<Rightarrow> step list \<Rightarrow> event list" where
  "body_events base [] = []"
| "body_events base (st # sts) = step_changed base # step_effects st @ body_events (Suc base) sts"

text \<open>
  One pass of the loop whose \<^verbatim>\<open>start_loop\<close> is at index \<open>i\<close>: the body, then
  \<^verbatim>\<open>end_loop\<close>; and the whole loop with \<open>n\<close> iterations asked for.
\<close>

definition iteration_events :: "nat \<Rightarrow> step list \<Rightarrow> event list" where
  "iteration_events i body = body_events (Suc i) body @ [step_changed (Suc (i + length body))]"

definition loop_events :: "nat \<Rightarrow> int \<Rightarrow> step list \<Rightarrow> event list" where
  "loop_events i n body =
     step_changed i # concat (replicate (nat (max 1 n)) (iteration_events i body))"

text \<open>Neither stop nor pause is set.\<close>

definition clear_flags :: "'h step_executor \<Rightarrow> bool" where
  "clear_flags s \<longleftrightarrow> \<not> stop_event s \<and> \<not> pause_event s"

text \<open>
  A schedule with no call from the GUI thread, for \<open>k\<close> iterations of the loop: in an
  iteration that executes a step the worker looks at the flags twice, at the loop
  condition and at the pause test.
\<close>

definition running :: "nat \<Rightarrow> gui_action list list" where
  "running k = replicate (2 * k) []"

definition loop_iterations :: "step \<Rightarrow> int" where
  "loop_iterations st = py_int (params_get (params st) ''iterations'' (NInt 1))"

text \<open>
  \<open>read_step d\<close> is the step that a dictionary with both keys holds, and \<open>keyed d P\<close>
  says that \<open>d\<close> has both keys and its step satisfies \<open>P\<close>.
\<close>

definition read_step :: "step_dict \<Rightarrow> step option" where
  "read_step d =
     (case function_key d of
        None \<Rightarrow> None
      | Some f \<Rightarrow>
          (case params_key d of
             None \<Rightarrow> None
           | Some ps \<Rightarrow> Some \<lparr>function_name = f, params = ps\<rparr>))"

definition keyed :: "step_dict \<Rightarrow> (step \<Rightarrow> bool) \<Rightarrow> bool" where
  "keyed d P = (case read_step d of None \<Rightarrow> False | Some st \<Rightarrow> P st)"

text \<open>
  \<open>loop_at sts i n body\<close>: in the program \<open>sts\<close>, index \<open>i\<close> holds a \<^verbatim>\<open>start_loop\<close>
  with \<open>n\<close> iterations, followed by the plain steps \<open>body\<close> and then by \<^verbatim>\<open>end_loop\<close>.
\<close>

definition loop_at :: "step_dict list \<Rightarrow> nat \<Rightarrow> int \<Rightarrow> step list \<Rightarrow> bool" where
  "loop_at sts i n body \<longleftrightarrow>
     Suc (i + length body) < length sts \<and>
     keyed (sts ! i) (\<lambda>st. function_name st = ''start_loop'' \<and> loop_iterations st = n) \<and>
     take (length body) (drop (Suc i) sts) = map as_dict body \<and>
     list_all plain_step body \<and>
     keyed (sts ! Suc (i + length body)) (\<lambda>st. function_name st = ''end_loop'')"

text \<open>Steps for the examples.\<close>

definition wait_step :: "real \<Rightarrow> step" where
  "wait_step t = \<lparr>function_name = ''wait'', params = [''time'' \<mapsto> NFloat t]\<rparr>"

definition start_loop_step :: "int \<Rightarrow> step" where
  "start_loop_step n = \<lparr>function_name = ''start_loop'', params = [''iterations'' \<mapsto> NInt n]\<rparr>"

definition end_loop_step :: step where
  "end_loop_step = \<lparr>function_name = ''end_loop'', params = Map.empty\<rparr>"

section \<open>Vocabulary of the run properties\<close>

fun is_step_changed :: "event \<Rightarrow> bool" where
  "is_step_changed (step_changed _) = True"
| "is_step_changed _ = False"

text \<open>
  \<open>advances k s s'\<close>: \<open>s'\<close> comes from \<open>s\<close> with the program unchanged and events
  added, none of them the finished signal and at most \<open>k\<close> of them step-changed signals.
\<close>

definition advances :: "nat \<Rightarrow> 'h step_executor \<Rightarrow> 'h step_executor \<Rightarrow> bool" where
  "advances k s s' \<longleftrightarrow>
     steps s' = steps s \<and>
     (\<exists>ev. events s' = events s @ ev \<and> execution_finished \<notin> set ev \<and>
           length (filter is_step_changed ev) \<le> k)"

text \<open>
  A bound on the iterations a run still has to make. A \<^verbatim>\<open>start_loop\<close> step sends
  execution back at most \<open>extra_rounds\<close> times (a dictionary that lacks a key never
  does); \<open>potential n rest\<close> bounds what the loops that start in \<open>rest\<close> can still cost in
  a program of \<open>n\<close> steps, a frame on the stack weighs its remaining rounds times the cost
  of one round, and \<open>run_measure\<close> adds the frames, the steps ahead and their loops.
  \<open>pause_after p calls\<close> is the pause flag after the calls, from the value \<open>p\<close>, and
  \<open>never_paused schedule\<close> says that \<^verbatim>\<open>pause\<close> is not among the calls of the schedule.
\<close>

definition extra_rounds :: "step \<Rightarrow> nat" where
  "extra_rounds st =
     (if function_name st = ''start_loop'' then nat (loop_iterations st - 1) else 0)"

definition dict_rounds :: "step_dict \<Rightarrow> nat" where
  "dict_rounds d = (case read_step d of None \<Rightarrow> 0 | Some st \<Rightarrow> extra_rounds st)"

fun potential :: "nat \<Rightarrow> step_dict list \<Rightarrow> nat" where
  "potential n [] = 0"
| "potential n (d # rest) =
     dict_rounds d * Suc (n + potential n rest) + potential n rest"

definition frame_weight :: "step_dict list \<Rightarrow> loop_frame \<Rightarrow> nat" where
  "frame_weight sts f =
     nat (iterations f - current_iteration f - 1) *
     Suc (length sts + potential (length sts) (drop (Suc (start_index f)) sts))"

definition run_measure :: "'h step_executor \<Rightarrow> nat" where
  "run_measure s =
     sum_list (map (frame_weight (steps s)) (loop_stack s)) +
     potential (length (steps s)) (drop (current_step s) (steps s)) +
     (length (steps s) - current_step s)"

fun pause_after :: "bool \<Rightarrow> gui_action list \<Rightarrow> bool" where
  "pause_after p [] = p"
| "pause_after p (call_pause # calls) = pause_after True calls"
| "pause_after p (call_resume # calls) = pause_after False calls"
| "pause_after p (call_stop # calls) = pause_after p calls"

definition never_paused :: "gui_action list list \<Rightarrow> bool" where
  "never_paused schedule = list_all (\<lambda>calls. call_pause \<notin> set calls) schedule"

section \<open>Vocabulary of the program file properties\<close>

text \<open>
  Modelled from the spec: "Step: { function: one of {pump_volume, pump_time, wait,
  start_loop, end_loop}, params: mapping of parameter name to numeric value }"
  (section 3). A step list is a Python list of dictionaries with exactly these two keys;
  a dictionary has each key once.
\<close>

definition step_functions :: "string list" where
  "step_functions = [''pump_volume'', ''pump_time'', ''wait'', ''start_loop'', ''end_loop'']"

text \<open>Modelled from the spec: a "numeric value" (section 3).\<close>

fun is_number :: "pyval \<Rightarrow> bool" where
  "is_number (PInt i) = True"
| "is_number (PFloat r) = True"
| "is_number _ = False"

text \<open>
  Modelled from the spec: "params: mapping of parameter name to numeric value"
  (section 3).
\<close>

fun is_params :: "pyval \<Rightarrow> bool" where
  "is_params (PDict kvs) = (distinct (map fst kvs) \<and> list_all (\<lambda>(k, x). is_number x) kvs)"
| "is_params _ = False"

text \<open>Modelled from the spec: a "Step" (section 3).\<close>

fun is_step :: "pyval \<Rightarrow> bool" where
  "is_step (PDict kvs) =
     (distinct (map fst kvs) \<and> set (map fst kvs) = {''function'', ''params''} \<and>
      (case map_of kvs ''function'' of
         Some (PStr f) \<Rightarrow> f \<in> set step_functions | _ \<Rightarrow> False) \<and>
      (case map_of kvs ''params'' of Some ps \<Rightarrow> is_params ps | None \<Rightarrow> False))"
| "is_step _ = False"

text \<open>
  Modelled from the spec: a step program, "the ordered list of user-defined pump
  actions" (glossary), "persisted as a JSON array" (section 3).
\<close>

fun is_step_list :: "pyval \<Rightarrow> bool" where
  "is_step_list (PList xs) = list_all is_step xs"
| "is_step_list _ = False"

text \<open>
  The values that come back from a program file as they went in: no tuple, no object
  that JSON does not know, and dictionaries that have each key once.
\<close>

primrec json_like :: "pyval \<Rightarrow> bool" where
  "json_like PNone = True"
| "json_like (PBool b) = True"
| "json_like (PInt i) = True"
| "json_like (PFloat r) = True"
| "json_like (PStr s) = True"
| "json_like (PList xs) = list_all (\<lambda>b. b) (map json_like xs)"
| "json_like (PTuple xs) = False"
| "json_like (PDict kvs) =
     (distinct (map fst kvs) \<and> list_all snd (map (map_prod id json_like) kvs))"
| "json_like (PObj n) = False"

text \<open>A program and a GUI state for the examples.\<close>

definition example_program :: pyval where
  "example_program =
     PList [PDict [(''function'', PStr ''start_loop''),
                   (''params'', PDict [(''iterations'', PInt 3)])],
            PDict [(''function'', PStr ''pump_volume''),
                   (''params'', PDict [(''volume'', PFloat 2.5), (''rate'', PFloat 1)])],
            PDict [(''function'', PStr ''end_loop''), (''params'', PDict [])]]"

definition example_gui :: gui_state where
  "example_gui =
     \<lparr>gui_steps = example_program, steps_file = ''chemyx_steps.json'', files = Map.empty\<rparr>"

section \<open>The parameter cache\<close>

lemma cacheable_is_vendor: "name \<in> set cacheable_methods \<Longrightarrow> name \<in> set vendor_methods"
  by (auto simp: cacheable_methods_def vendor_methods_def)

text \<open>
  Claim C8. After \<^verbatim>\<open>reset_cache\<close>, the next call of any cacheable method reaches the
  vendor's method with the arguments given and returns what it returns (or raises what
  it raises), whatever was cached before.
\<close>

theorem reset_cache_forces_hardware_call:
  "name \<in> set cacheable_methods \<Longrightarrow>
     hw_calls (snd (call_method V name args kws (reset_cache cc))) =
       hw_calls cc @ [(name, args, kws)] \<and>
     fst (call_method V name args kws (reset_cache cc)) =
       fst (v_call V name args kws (connection cc))"
  by (simp add: call_method_def cacheable_is_vendor cached_method_def reset_cache_def
      original_method_def Let_def split: prod.splits sum.splits)

theorem reset_cache_forces_hardware_call_witness:
  "''setRate'' \<in> set cacheable_methods \<and>
   hw_calls (snd (call_method accepting_vendor ''setRate'' [PFloat 5] []
     (reset_cache \<lparr>connection = (),
        cache = [''setRate'' \<mapsto> make_param_value [PFloat 5] []],
        hw_calls = []\<rparr>))) = [(''setRate'', [PFloat 5], [])]"
  using reset_cache_forces_hardware_call[of "''setRate''" accepting_vendor "[PFloat 5]" "[]"
      "\<lparr>connection = (), cache = [''setRate'' \<mapsto> make_param_value [PFloat 5] []],
        hw_calls = []\<rparr>"]
  by (simp add: cacheable_methods_def)

section \<open>The pump operation\<close>

lemma load_actual_volume: "load_name ''actual_volume'' = Inl name_error"
  by (simp add: load_name_def module_globals_def name_error_def)

text \<open>
  Reading \<^verbatim>\<open>actual_volume\<close> raises, so what is left of \<^verbatim>\<open>_execute_pump_operation\<close>
  is its first three calls.
\<close>

lemma execute_pump_operation_reduced:
  "execute_pump_operation V volume rate w s0 =
     andthen (connection_call V ''setUnits'' [PStr ''mL/min''] s0) (\<lambda>_ s.
     andthen (connection_call V ''setDiameter'' [diameter (exec_config s)] s) (\<lambda>_ s.
     andthen (connection_call V ''setMode'' [PInt (if volume < 0 then 1 else 0)] s) (\<lambda>_ s.
       (Inl name_error, s))))"
  unfolding execute_pump_operation_def load_actual_volume
  by (cases "volume < 0") (simp_all add: andthen_def connection_getattr_def vendor_methods_def)

lemma connection_call_effect:
  assumes "connection_call V name args s = (r, s')" and "name \<in> set vendor_methods"
  shows "steps s' = steps s \<and> current_step s' = current_step s \<and> loop_stack s' = loop_stack s
       \<and> exec_config s' = exec_config s \<and> stop_event s' = stop_event s
       \<and> pause_event s' = pause_event s \<and> events s' = events s @ [invoked name args]
       \<and> (hw_calls (exec_connection s') = hw_calls (exec_connection s)
          \<or> hw_calls (exec_connection s') = hw_calls (exec_connection s) @ [(name, args, [])])"
  using assms
  by (auto simp: connection_call_def andthen_def connection_getattr_def call_method_def
      cached_method_def original_method_def emit_def Let_def
      split: prod.splits sum.splits if_splits option.splits)

lemma extends_refl: "extends s s"
  by (simp add: extends_def)

lemma extends_trans: "extends a b \<Longrightarrow> extends b c \<Longrightarrow> extends a c"
  by (auto simp: extends_def)

lemma connection_call_extends:
  assumes "connection_call V name args s = (r, s')" and "name \<in> setters"
  shows "extends s s'"
proof -
  have "name \<in> set vendor_methods"
    using assms(2) by (auto simp: setters_def vendor_methods_def)
  from connection_call_effect[OF assms(1) this] assms(2) show ?thesis
    by (auto simp: extends_def)
qed

lemma andthen_extends:
  assumes "andthen (m s) f = (r, s')"
    and "\<And>r1 s1. m s = (r1, s1) \<Longrightarrow> extends s s1"
    and "\<And>v s1. m s = (Inr v, s1) \<Longrightarrow> extends s1 (snd (f v s1))"
  shows "extends s s'"
proof (cases "m s")
  case (Pair r1 s1)
  show ?thesis
  proof (cases r1)
    case (Inl e)
    with Pair assms(1) have "s' = s1" by (simp add: andthen_def)
    with assms(2)[OF Pair] show ?thesis by simp
  next
    case (Inr v)
    with Pair assms(1) have "s' = snd (f v s1)" by (simp add: andthen_def)
    with assms(2)[OF Pair] assms(3)[of v s1] Pair Inr show ?thesis
      by (auto intro: extends_trans)
  qed
qed

lemma execute_pump_operation_extends:
  "extends s (snd (execute_pump_operation V volume rate w s))"
proof -
  obtain r s' where eq: "execute_pump_operation V volume rate w s = (r, s')" by force
  have "extends s s'"
    using eq unfolding execute_pump_operation_reduced
    apply (rule andthen_extends)
     apply (erule connection_call_extends, simp add: setters_def)
    apply (rule andthen_extends[OF surjective_pairing])
     apply (erule connection_call_extends, simp add: setters_def)
    apply (rule andthen_extends[OF surjective_pairing])
     apply (erule connection_call_extends, simp add: setters_def)
    apply (simp add: extends_refl)
    done
  with eq show ?thesis by simp
qed

lemma andthen_Inl: "(\<And>v s1. \<exists>e. fst (f v s1) = Inl e) \<Longrightarrow> \<exists>e. fst (andthen m f) = Inl e"
  by (cases m; cases "fst m") (auto simp: andthen_def)

lemma execute_pump_operation_raises:
  "\<exists>e. fst (execute_pump_operation V volume rate w s) = Inl e"
  unfolding execute_pump_operation_reduced
  by (intro andthen_Inl) simp




lemma pump_time_eq:
  "pump_time V duration rate s =
     execute_pump_operation V (pump_time_volume duration rate) \<bar>rate\<bar> False s"
proof -
  obtain e where
    "fst (execute_pump_operation V (pump_time_volume duration rate) \<bar>rate\<bar> False s) = Inl e"
    using execute_pump_operation_raises by blast
  then show ?thesis
    by (cases "execute_pump_operation V (pump_time_volume duration rate) \<bar>rate\<bar> False s")
       (simp add: pump_time_def andthen_def)
qed

lemma pump_step_dispatch:
  assumes "function_name st = ''pump_volume'' \<or> function_name st = ''pump_time''"
  shows "(\<exists>e. fst (step_dispatch V st s) = Inl e) \<and> extends s (snd (step_dispatch V st s))"
  using assms
  by (auto simp: step_dispatch_def Let_def pump_volume_def pump_time_eq
      execute_pump_operation_raises execute_pump_operation_extends)

text \<open>A dictionary with both keys gets past the subscripts, into the \<^verbatim>\<open>try\<close>.\<close>

lemma step_eta: "\<lparr>function_name = function_name st, params = params st\<rparr> = (st :: step)"
  by (cases st) simp

lemma execute_single_step_as_dict:
  "execute_single_step V (as_dict st) s = (Inr (fst (try_step V st s)), snd (try_step V st s))"
  by (cases "try_step V st s")
     (simp add: execute_single_step_def as_dict_def subscript_function_def
       subscript_params_def andthen_def step_eta)






text \<open>
  Claim C1, evaluated on the code. A \<^verbatim>\<open>pump_volume\<close> step with volume 2 and rate 5, on
  a vendor connection that accepts every call: the mode is set to withdraw (0), the step
  fails, and the vendor sees neither \<^verbatim>\<open>setRate\<close> nor \<^verbatim>\<open>setVolume\<close> nor
  \<^verbatim>\<open>startPump\<close>. The rate \<^verbatim>\<open>abs(R)\<close> is never sent.
\<close>

theorem pump_volume_step_sends_no_rate:
  "fst (execute_single_step accepting_vendor
       (as_dict \<lparr>function_name = ''pump_volume'',
          params = [''volume'' \<mapsto> NFloat 2, ''rate'' \<mapsto> NFloat 5]\<rparr>)
       (example_executor [])) = Inr False \<and>
   hw_calls (exec_connection (snd (execute_single_step accepting_vendor
       (as_dict \<lparr>function_name = ''pump_volume'',
          params = [''volume'' \<mapsto> NFloat 2, ''rate'' \<mapsto> NFloat 5]\<rparr>)
       (example_executor [])))) =
     [(''setUnits'', [PStr ''mL/min''], []),
      (''setDiameter'', [PFloat 28.6], []),
      (''setMode'', [PInt 0], [])] \<and>
   events (snd (execute_single_step accepting_vendor
       (as_dict \<lparr>function_name = ''pump_volume'',
          params = [''volume'' \<mapsto> NFloat 2, ''rate'' \<mapsto> NFloat 5]\<rparr>)
       (example_executor []))) =
     [invoked ''setUnits'' [PStr ''mL/min''],
      invoked ''setDiameter'' [PFloat 28.6],
      invoked ''setMode'' [PInt 0],
      error_occurred (''Step 1: '' @ str_exc name_error)]"
  by (simp add: execute_single_step_as_dict try_step_def step_dispatch_def pump_volume_def
      params_get_def
      execute_pump_operation_reduced andthen_def connection_call_def connection_getattr_def
      call_method_def cached_method_def original_method_def make_cache_key_def
      vendor_methods_def cacheable_methods_def emit_def example_executor_def StepExecutor_def
      fresh_connection_def default_config_def accepting_vendor_def str_nat.simps Let_def
      make_param_value_def sorted_items_def)

text \<open>
  Claim C5, as amended. \<^verbatim>\<open>_pump_time\<close> hands the volume \<open>rate * duration / 60\<close> to the
  pump operation, with the rate \<open>\<bar>rate\<bar>\<close> and no wait for completion. For a positive
  duration its size is \<open>\<bar>rate\<bar> * duration / 60\<close> and its sign is the sign of the rate:
  negative for a negative rate, non-negative otherwise.
\<close>

theorem pump_time_volume_sign:
  "0 < duration \<Longrightarrow>
     pump_time_volume duration rate = rate * duration / 60 \<and>
     \<bar>pump_time_volume duration rate\<bar> = \<bar>rate\<bar> * duration / 60 \<and>
     (rate < 0 \<longrightarrow> pump_time_volume duration rate < 0) \<and>
     (0 \<le> rate \<longrightarrow> 0 \<le> pump_time_volume duration rate) \<and>
     pump_time V duration rate s =
       andthen (execute_pump_operation V (pump_time_volume duration rate) \<bar>rate\<bar> False s)
         (\<lambda>_ s. sleep (duration + 1) s)"
  by (auto simp: pump_time_volume_def Let_def pump_time_def abs_mult mult_less_0_iff
      divide_less_0_iff)

theorem pump_time_volume_sign_witness:
  "(0::real) < 30 \<and> pump_time_volume 30 (- 4) = - 2 \<and> pump_time_volume 30 4 = 2"
  using pump_time_volume_sign[of 30 "- 4" accepting_vendor "example_executor []"]
    pump_time_volume_sign[of 30 4 accepting_vendor "example_executor []"]
  by simp

text \<open>
  The claim as it stands fails outside the positive durations: with duration -6 and rate
  10 the volume is negative although the rate is not, and with duration 0 and rate -1 the
  volume is not negative although the rate is.
\<close>

theorem pump_time_volume_sign_counterexample:
  "\<not> (0 \<le> pump_time_volume (- 6) 10) \<and> \<not> (pump_time_volume 0 (- 1) < 0)"
  by (simp add: pump_time_volume_def)

section \<open>Equality of parameter values\<close>

lemma py_eq_num: "num_of y = Some c \<Longrightarrow> py_eq y z = (num_of z = Some c)"
  by (cases y) auto

lemma py_eq_list_conv:
  "list_all2 (\<lambda>f v. f v) (map py_eq xs) ys = list_all2 py_eq xs ys"
  by (simp add: list_all2_map1)

lemma list_all2_trans_set:
  assumes "\<And>x y z. x \<in> set xs \<Longrightarrow> P x y \<Longrightarrow> P y z \<Longrightarrow> P x z"
    and "list_all2 P xs ys" and "list_all2 P ys zs"
  shows "list_all2 P xs zs"
  using assms(2,3,1)
proof (induction arbitrary: zs rule: list_all2_induct)
  case Nil
  then show ?case by simp
next
  case (Cons x xs y ys)
  from Cons.prems(1) obtain z zs' where zs: "zs = z # zs'" "P y z" "list_all2 P ys zs'"
    by (auto simp: list_all2_Cons1)
  have "P x z" using Cons.prems(2)[of x y z] Cons.hyps(1) zs(2) by simp
  moreover have "list_all2 P xs zs'"
    using Cons.IH[OF zs(3)] Cons.prems(2) by auto
  ultimately show ?case using zs(1) by simp
qed

lemma list_all2_sym_set:
  assumes "\<And>x y. x \<in> set xs \<Longrightarrow> P x y = P y x"
  shows "list_all2 P xs ys = list_all2 P ys xs"
  using assms
proof (induction xs arbitrary: ys)
  case Nil
  then show ?case by simp
next
  case (Cons x xs)
  then show ?case by (cases ys) auto
qed

lemma map_of_py_eq:
  "map_of (map (map_prod id py_eq) kvs) k = map_option py_eq (map_of kvs k)"
  by (induction kvs) auto

lemma py_eq_dict_conv:
  "py_eq (PDict kvs) (PDict kws) \<longleftrightarrow>
     (\<forall>(k, v) \<in> set kvs. \<exists>w. map_of kws k = Some w \<and> py_eq v w) \<and>
     (\<forall>(k, w) \<in> set kws. \<exists>v. map_of kvs k = Some v \<and> py_eq v w)"
  by (auto simp: list_all_iff map_of_py_eq split: option.splits)

lemma py_eq_sym: "py_eq x y = py_eq y x"
proof (induction x arbitrary: y)
  case PNone
  show ?case by (cases y) auto
next
  case (PBool b)
  show ?case by (cases y) auto
next
  case (PInt i)
  show ?case by (cases y) auto
next
  case (PFloat r)
  show ?case by (cases y) auto
next
  case (PStr s)
  show ?case by (cases y) auto
next
  case (PList xs)
  show ?case
  proof (cases y)
    case (PList ys)
    have "list_all2 py_eq xs ys = list_all2 py_eq ys xs"
      by (rule list_all2_sym_set) (rule PList.IH)
    with PList show ?thesis by (simp add: py_eq_list_conv)
  qed auto
next
  case (PTuple xs)
  show ?case
  proof (cases y)
    case (PTuple ys)
    have "list_all2 py_eq xs ys = list_all2 py_eq ys xs"
      by (rule list_all2_sym_set) (rule PTuple.IH)
    with PTuple show ?thesis by (simp add: py_eq_list_conv)
  qed auto
next
  case (PDict kvs)
  show ?case
  proof (cases y)
    case y: (PDict kws)
    have ih: "py_eq v w = py_eq w v" if "(k, v) \<in> set kvs" for k v w
      by (rule PDict.IH[OF that]) simp
    have a: "(\<exists>w. map_of kws k = Some w \<and> py_eq v w) =
        (\<exists>w. map_of kws k = Some w \<and> py_eq w v)" if "(k, v) \<in> set kvs" for k v
      using ih[OF that] by simp
    have b: "(\<exists>v. map_of kvs k = Some v \<and> py_eq v w) =
        (\<exists>v. map_of kvs k = Some v \<and> py_eq w v)" for k w
    proof (cases "map_of kvs k")
      case None
      then show ?thesis by simp
    next
      case (Some v)
      then have "(k, v) \<in> set kvs" by (rule map_of_SomeD)
      from ih[OF this, of w] Some show ?thesis by simp
    qed
    have "(\<forall>(k, v) \<in> set kvs. \<exists>w. map_of kws k = Some w \<and> py_eq v w) =
        (\<forall>(k, v) \<in> set kvs. \<exists>w. map_of kws k = Some w \<and> py_eq w v)"
      using a by blast
    moreover have "(\<forall>(k, w) \<in> set kws. \<exists>v. map_of kvs k = Some v \<and> py_eq v w) =
        (\<forall>(k, w) \<in> set kws. \<exists>v. map_of kvs k = Some v \<and> py_eq w v)"
      by (simp only: b)
    ultimately have "py_eq (PDict kvs) (PDict kws) = py_eq (PDict kws) (PDict kvs)"
      unfolding py_eq_dict_conv by blast
    with y show ?thesis by simp
  qed auto
next
  case (PObj n)
  show ?case by (cases y) auto
qed


lemma py_eq_trans: "py_eq x y \<Longrightarrow> py_eq y z \<Longrightarrow> py_eq x z"
proof (induction x arbitrary: y z)
  case PNone
  then show ?case by simp
next
  case (PBool b)
  then show ?case by (simp add: py_eq_num)
next
  case (PInt i)
  then show ?case by (simp add: py_eq_num)
next
  case (PFloat r)
  then show ?case by (simp add: py_eq_num)
next
  case (PStr s)
  then show ?case by simp
next
  case (PList xs)
  from PList.prems(1) obtain ys where y: "y = PList ys" "list_all2 py_eq xs ys"
    by (cases y) (auto simp: py_eq_list_conv)
  from PList.prems(2) y obtain zs where z: "z = PList zs" "list_all2 py_eq ys zs"
    by (cases z) (auto simp: py_eq_list_conv)
  have "list_all2 py_eq xs zs"
    by (rule list_all2_trans_set[OF _ y(2) z(2)]) (rule PList.IH)
  then show ?case using z(1) by (simp add: py_eq_list_conv)
next
  case (PTuple xs)
  from PTuple.prems(1) obtain ys where y: "y = PTuple ys" "list_all2 py_eq xs ys"
    by (cases y) (auto simp: py_eq_list_conv)
  from PTuple.prems(2) y obtain zs where z: "z = PTuple zs" "list_all2 py_eq ys zs"
    by (cases z) (auto simp: py_eq_list_conv)
  have "list_all2 py_eq xs zs"
    by (rule list_all2_trans_set[OF _ y(2) z(2)]) (rule PTuple.IH)
  then show ?case using z(1) by (simp add: py_eq_list_conv)
next
  case (PDict kvs)
  from PDict.prems(1) obtain kws where y: "y = PDict kws" by (cases y) auto
  from PDict.prems(2) y obtain kus where z: "z = PDict kus" by (cases z) auto
  from PDict.prems y z have p1: "py_eq (PDict kvs) (PDict kws)"
    and p2: "py_eq (PDict kws) (PDict kus)" by blast+
  from p1[unfolded py_eq_dict_conv] p2[unfolded py_eq_dict_conv] have
    ab: "\<forall>(k, v) \<in> set kvs. \<exists>w. map_of kws k = Some w \<and> py_eq v w" and
    ba: "\<forall>(k, w) \<in> set kws. \<exists>v. map_of kvs k = Some v \<and> py_eq v w" and
    bc: "\<forall>(k, v) \<in> set kws. \<exists>w. map_of kus k = Some w \<and> py_eq v w" and
    cb: "\<forall>(k, w) \<in> set kus. \<exists>v. map_of kws k = Some v \<and> py_eq v w"
    by blast+
  have one: "\<exists>u. map_of kus k = Some u \<and> py_eq v u" if kv: "(k, v) \<in> set kvs" for k v
  proof -
    from ab kv obtain w where w: "map_of kws k = Some w" "py_eq v w" by auto
    then have "(k, w) \<in> set kws" by (auto dest: map_of_SomeD)
    with bc obtain u where u: "map_of kus k = Some u" "py_eq w u" by auto
    have "py_eq v u"
      by (rule PDict.IH[OF kv _ w(2) u(2)]) simp
    with u(1) show ?thesis by blast
  qed
  have two: "\<exists>v. map_of kvs k = Some v \<and> py_eq v u" if ku: "(k, u) \<in> set kus" for k u
  proof -
    from cb ku obtain w where w: "map_of kws k = Some w" "py_eq w u" by auto
    then have "(k, w) \<in> set kws" by (auto dest: map_of_SomeD)
    with ba obtain v where v: "map_of kvs k = Some v" "py_eq v w" by auto
    then have kv: "(k, v) \<in> set kvs" by (auto dest: map_of_SomeD)
    have "py_eq v u"
      by (rule PDict.IH[OF kv _ v(2) w(2)]) simp
    with v(1) show ?thesis by blast
  qed
  from one two show ?case unfolding z py_eq_dict_conv by auto
next
  case (PObj n)
  then show ?case by simp
qed

lemma cached_method_after:
  assumes "cached_method V name args kws cc = (Inr r, cc1)"
  shows "\<exists>old. cache cc1 (make_cache_key V cc name) = Some old \<and>
               (old = make_param_value args kws \<or> py_eq old (make_param_value args kws))"
  using assms
  by (auto simp: cached_method_def Let_def original_method_def
      split: if_splits option.splits prod.splits sum.splits)

lemma cached_method_hit:
  assumes "cache cc (make_cache_key V cc name) = Some old" and "py_eq old (make_param_value args kws)"
  shows "cached_method V name args kws cc = (Inr PNone, cc)"
  using assms by (simp add: cached_method_def Let_def)

lemma cached_method_miss:
  assumes "cache cc (make_cache_key V cc name) = Some old" and "\<not> py_eq old (make_param_value args kws)"
  shows "hw_calls (snd (cached_method V name args kws cc)) = hw_calls cc @ [(name, args, kws)] \<and>
         fst (cached_method V name args kws cc) = fst (v_call V name args kws (connection cc)) \<and>
         (\<forall>r. fst (cached_method V name args kws cc) = Inr r \<longrightarrow>
            cache (snd (cached_method V name args kws cc)) (make_cache_key V cc name) =
              Some (make_param_value args kws))"
  using assms
  by (auto simp: cached_method_def Let_def original_method_def split: prod.splits sum.splits)

text \<open>
  The comparison that the cache makes on the values it builds is the value equality of
  the arguments, and the cache key stays the same while the pump does.
\<close>

lemma make_hashable_eq: "py_eq (make_hashable a) (make_hashable b) = value_equal a b"
  by (cases a; cases b) (simp_all add: value_equal_def sorted_items_def list_all2_map1)

lemma insort_key_map_snd:
  "insort_key fst (fst x, g (snd x)) (map (\<lambda>p. (fst p, g (snd p))) xs) =
     map (\<lambda>p. (fst p, g (snd p))) (insort_key fst x xs)"
  by (induction xs) auto

lemma sort_key_map_snd:
  "sort_key fst (map (\<lambda>p. (fst p, g (snd p))) xs) =
     map (\<lambda>p. (fst p, g (snd p))) (sort_key fst xs)"
  by (induction xs) (auto simp: insort_key_map_snd)

lemma py_eq_item:
  "py_eq (PTuple [PStr k, v]) (PTuple [PStr k', v']) = (k = k' \<and> py_eq v v')"
  by auto

lemma sorted_items_eq:
  "list_all2 py_eq (sorted_items (map (\<lambda>(k, v). (k, make_hashable v)) kws))
        (sorted_items (map (\<lambda>(k, v). (k, make_hashable v)) kws')) =
      list_all2 (\<lambda>(k, v) (k', v'). k = k' \<and> value_equal v v')
        (sort_key fst kws) (sort_key fst kws')"
proof -
  have m: "map (\<lambda>(k, v). (k, make_hashable v)) xs = map (\<lambda>p. (fst p, make_hashable (snd p))) xs"
    for xs :: kwargs
    by (simp add: case_prod_unfold)
  have "list_all2 py_eq (sorted_items (map (\<lambda>(k, v). (k, make_hashable v)) kws))
        (sorted_items (map (\<lambda>(k, v). (k, make_hashable v)) kws')) =
     list_all2 (\<lambda>x y. py_eq (PTuple [PStr (fst x), make_hashable (snd x)])
                       (PTuple [PStr (fst y), make_hashable (snd y)]))
        (sort_key fst kws) (sort_key fst kws')"
    unfolding sorted_items_def m sort_key_map_snd
    by (simp add: list_all2_map1 list_all2_map2 case_prod_unfold)
  also have "\<dots> = list_all2 (\<lambda>(k, v) (k', v'). k = k' \<and> value_equal v v')
        (sort_key fst kws) (sort_key fst kws')"
    unfolding py_eq_item make_hashable_eq by (simp add: case_prod_unfold)
  finally show ?thesis .
qed

lemma make_param_value_eq:
  "py_eq (make_param_value args kws) (make_param_value args' kws') =
     same_arguments args kws args' kws'"
proof -
  have a: "list_all2 py_eq (map make_hashable args) (map make_hashable args') =
      list_all2 value_equal args args'"
    by (simp add: list_all2_map1 list_all2_map2 make_hashable_eq)
  have t: "py_eq (PTuple xs) (PTuple ys) = list_all2 py_eq xs ys" for xs ys
    by (simp add: py_eq_list_conv)
  have "py_eq (make_param_value args kws) (make_param_value args' kws') =
      (py_eq (PTuple (map make_hashable args)) (PTuple (map make_hashable args')) \<and>
       py_eq (PTuple (sorted_items (map (\<lambda>(k, v). (k, make_hashable v)) kws)))
         (PTuple (sorted_items (map (\<lambda>(k, v). (k, make_hashable v)) kws'))))"
    by (simp add: make_param_value_def)
  also have "\<dots> = same_arguments args kws args' kws'"
    unfolding t a sorted_items_eq same_arguments_def ..
  finally show ?thesis .
qed

lemma same_pump_key: "same_pump V cc cc' \<Longrightarrow> make_cache_key V cc' name = make_cache_key V cc name"
  by (auto simp: same_pump_def make_cache_key_def)

lemma second_call_by_key:
  assumes "name \<in> set cacheable_methods"
    and "call_method V name args kws cc = (Inr r, cc1)"
    and "make_cache_key V cc1 name = make_cache_key V cc name"
  shows "(py_eq (make_param_value args kws) (make_param_value args' kws') \<longrightarrow>
            call_method V name args' kws' cc1 = (Inr PNone, cc1)) \<and>
         (\<not> py_eq (make_param_value args kws) (make_param_value args' kws') \<longrightarrow>
            hw_calls (snd (call_method V name args' kws' cc1)) =
              hw_calls cc1 @ [(name, args', kws')] \<and>
            fst (call_method V name args' kws' cc1) =
              fst (v_call V name args' kws' (connection cc1)) \<and>
            (\<forall>r'. fst (call_method V name args' kws' cc1) = Inr r' \<longrightarrow>
               cache (snd (call_method V name args' kws' cc1)) (make_cache_key V cc1 name) =
                 Some (make_param_value args' kws')))"
proof -
  have vm: "name \<in> set vendor_methods"
    using assms(1) by (auto simp: cacheable_methods_def vendor_methods_def)
  have cm: "call_method V name a k c = cached_method V name a k c" for a k c
    using assms(1) vm by (simp add: call_method_def)
  from assms(2) have "cached_method V name args kws cc = (Inr r, cc1)" by (simp add: cm)
  from cached_method_after[OF this] assms(3) obtain old where
    old: "cache cc1 (make_cache_key V cc1 name) = Some old"
      "old = make_param_value args kws \<or> py_eq old (make_param_value args kws)" by auto
  have same: "py_eq old (make_param_value args' kws') =
     py_eq (make_param_value args kws) (make_param_value args' kws')"
  proof (cases "old = make_param_value args kws")
    case True
    then show ?thesis by simp
  next
    case False
    with old(2) have o: "py_eq old (make_param_value args kws)" by simp
    then have o': "py_eq (make_param_value args kws) old" by (simp add: py_eq_sym)
    show ?thesis using py_eq_trans[OF o] py_eq_trans[OF o'] by blast
  qed
  show ?thesis
  proof (cases "py_eq (make_param_value args kws) (make_param_value args' kws')")
    case True
    then have "py_eq old (make_param_value args' kws')" by (simp add: same)
    from cached_method_hit[OF old(1) this] True show ?thesis by (simp add: cm)
  next
    case False
    then have "\<not> py_eq old (make_param_value args' kws')" by (simp add: same)
    from cached_method_miss[OF old(1) this] False show ?thesis by (simp add: cm)
  qed
qed

text \<open>
  Claim C4, as amended. A cacheable method is called and returns normally; it is then
  called again while the connection is in the same pump mode and, in multi-pump mode,
  has the same current pump. If the arguments of the two calls are value-equal (a list
  like the tuple of its elements, a dictionary like its items in key order, numbers by
  value, keyword arguments whatever their order), the second call reaches no vendor
  method, changes nothing and returns \<^verbatim>\<open>None\<close>. If they are not, the second call
  reaches the vendor's method with the new arguments, returns what it returns, and, when
  it returns normally, the value built from the new arguments is the one the cache
  holds.
\<close>

theorem cached_method_second_call:
  assumes "name \<in> set cacheable_methods"
    and "call_method V name args kws cc = (Inr r, cc1)"
    and "same_pump V cc cc1"
  shows "(same_arguments args kws args' kws' \<longrightarrow>
            call_method V name args' kws' cc1 = (Inr PNone, cc1)) \<and>
         (\<not> same_arguments args kws args' kws' \<longrightarrow>
            hw_calls (snd (call_method V name args' kws' cc1)) =
              hw_calls cc1 @ [(name, args', kws')] \<and>
            fst (call_method V name args' kws' cc1) =
              fst (v_call V name args' kws' (connection cc1)) \<and>
            (\<forall>r'. fst (call_method V name args' kws' cc1) = Inr r' \<longrightarrow>
               cache (snd (call_method V name args' kws' cc1)) (make_cache_key V cc1 name) =
                 Some (make_param_value args' kws')))"
  using second_call_by_key[OF assms(1,2) same_pump_key[OF assms(3)], of args' kws']
  unfolding make_param_value_eq .

theorem cached_method_second_call_witness:
  "''setRate'' \<in> set cacheable_methods \<and>
   call_method accepting_vendor ''setRate'' [PList [PInt 1, PInt 2]]
       [(''b'', PInt 1), (''a'', PInt 2)] fresh_connection =
     (Inr PNone,
      \<lparr>connection = (),
       cache = [''setRate'' \<mapsto>
         make_param_value [PList [PInt 1, PInt 2]] [(''b'', PInt 1), (''a'', PInt 2)]],
       hw_calls = [(''setRate'', [PList [PInt 1, PInt 2]],
                    [(''b'', PInt 1), (''a'', PInt 2)])]\<rparr>) \<and>
   same_pump accepting_vendor fresh_connection
     \<lparr>connection = (),
      cache = [''setRate'' \<mapsto>
        make_param_value [PList [PInt 1, PInt 2]] [(''b'', PInt 1), (''a'', PInt 2)]],
      hw_calls = [(''setRate'', [PList [PInt 1, PInt 2]],
                   [(''b'', PInt 1), (''a'', PInt 2)])]\<rparr> \<and>
   same_arguments [PList [PInt 1, PInt 2]] [(''b'', PInt 1), (''a'', PInt 2)]
     [PTuple [PInt 1, PFloat 2]] [(''a'', PFloat 2), (''b'', PInt 1)] \<and>
   hw_calls (snd (call_method accepting_vendor ''setRate'' [PTuple [PInt 1, PFloat 2]]
       [(''a'', PFloat 2), (''b'', PInt 1)]
     \<lparr>connection = (),
      cache = [''setRate'' \<mapsto>
        make_param_value [PList [PInt 1, PInt 2]] [(''b'', PInt 1), (''a'', PInt 2)]],
      hw_calls = [(''setRate'', [PList [PInt 1, PInt 2]],
                   [(''b'', PInt 1), (''a'', PInt 2)])]\<rparr>)) =
     [(''setRate'', [PList [PInt 1, PInt 2]], [(''b'', PInt 1), (''a'', PInt 2)])] \<and>
   \<not> same_arguments [PList [PInt 1, PInt 2]] [(''b'', PInt 1), (''a'', PInt 2)]
     [PList [PInt 1, PInt 2]] [(''b'', PInt 1), (''a'', PInt 3)] \<and>
   hw_calls (snd (call_method accepting_vendor ''setRate'' [PList [PInt 1, PInt 2]]
       [(''b'', PInt 1), (''a'', PInt 3)]
     \<lparr>connection = (),
      cache = [''setRate'' \<mapsto>
        make_param_value [PList [PInt 1, PInt 2]] [(''b'', PInt 1), (''a'', PInt 2)]],
      hw_calls = [(''setRate'', [PList [PInt 1, PInt 2]],
                   [(''b'', PInt 1), (''a'', PInt 2)])]\<rparr>)) =
     [(''setRate'', [PList [PInt 1, PInt 2]], [(''b'', PInt 1), (''a'', PInt 2)]),
      (''setRate'', [PList [PInt 1, PInt 2]], [(''b'', PInt 1), (''a'', PInt 3)])]"
proof -
  let ?args = "[PList [PInt 1, PInt 2]]"
  let ?kws = "[(''b'', PInt 1), (''a'', PInt 2)]"
  let ?cc1 = "\<lparr>connection = (), cache = [''setRate'' \<mapsto> make_param_value ?args ?kws],
       hw_calls = [(''setRate'', ?args, ?kws)]\<rparr> :: unit cached_connection"
  have c: "''setRate'' \<in> set cacheable_methods" by (simp add: cacheable_methods_def)
  have first: "call_method accepting_vendor ''setRate'' ?args ?kws fresh_connection =
     (Inr PNone, ?cc1)"
    by (simp add: call_method_def cached_method_def original_method_def make_cache_key_def
        vendor_methods_def cacheable_methods_def fresh_connection_def accepting_vendor_def Let_def)
  have pump: "same_pump accepting_vendor fresh_connection ?cc1"
    by (simp add: same_pump_def accepting_vendor_def)
  have e1: "same_arguments ?args ?kws
      [PTuple [PInt 1, PFloat 2]] [(''a'', PFloat 2), (''b'', PInt 1)]"
    by (simp add: same_arguments_def value_equal_def)
  have e2: "\<not> same_arguments ?args ?kws ?args [(''b'', PInt 1), (''a'', PInt 3)]"
    by (simp add: same_arguments_def value_equal_def)
  from cached_method_second_call[OF c first pump,
      of "[PTuple [PInt 1, PFloat 2]]" "[(''a'', PFloat 2), (''b'', PInt 1)]"] e1
    cached_method_second_call[OF c first pump, of ?args "[(''b'', PInt 1), (''a'', PInt 3)]"] e2
    c first pump
  show ?thesis by simp
qed

text \<open>
  The claim as it stands fails for \<^verbatim>\<open>setPump\<close> on a connection in multi-pump mode.
  The cache key is built from the current pump before the call, and the call changes
  the current pump: with pump 1 selected, \<^verbatim>\<open>setPump(2)\<close> is recorded under the key of
  pump 1, and a second \<^verbatim>\<open>setPump(2)\<close> looks under the key of pump 2, finds nothing and
  reaches the vendor's method again.
\<close>

theorem cached_method_second_call_counterexample:
  "\<exists>cc1. call_method multipump_vendor ''setPump'' [PInt 2] []
            \<lparr>connection = 1, cache = Map.empty, hw_calls = []\<rparr> = (Inr PNone, cc1) \<and>
         same_arguments [PInt 2] [] [PInt 2] [] \<and>
         hw_calls (snd (call_method multipump_vendor ''setPump'' [PInt 2] [] cc1)) =
           [(''setPump'', [PInt 2], []), (''setPump'', [PInt 2], [])]"
  by (simp add: call_method_def cached_method_def original_method_def make_cache_key_def
      vendor_methods_def cacheable_methods_def multipump_vendor_def Let_def str_nat.simps
      same_arguments_def value_equal_def make_param_value_def sorted_items_def)
section \<open>Loops\<close>

lemma plain_dispatch:
  "plain_step st \<Longrightarrow>
     step_dispatch V st s = (Inr (), s\<lparr>events := events s @ step_effects st\<rparr>)"
  by (auto simp: plain_step_def step_dispatch_def Let_def wait_def sleep_def emit_def
      step_effects_def wait_time_def split: if_splits)

lemma clear_flags_update [simp]:
  "clear_flags (s\<lparr>events := ev\<rparr>) = clear_flags s"
  "clear_flags (s\<lparr>current_step := pc\<rparr>) = clear_flags s"
  "clear_flags (s\<lparr>loop_stack := stk\<rparr>) = clear_flags s"
  by (simp_all add: clear_flags_def)

lemma read_step_as_dict [simp]: "read_step (as_dict st) = Some st"
  by (simp add: read_step_def as_dict_def step_eta)

lemma read_step_Some: "read_step d = Some st \<Longrightarrow> d = as_dict st"
  by (cases d) (auto simp: read_step_def as_dict_def split: option.splits)

lemma keyed_as_dict [simp]: "keyed (as_dict st) P = P st"
  by (simp add: keyed_def)

lemma keyedD: "keyed d P \<Longrightarrow> \<exists>st. d = as_dict st \<and> P st"
  by (auto simp: keyed_def dest: read_step_Some split: option.splits)

lemma plain_iteration:
  assumes "current_step s < length (steps s)" and "steps s ! current_step s = as_dict st"
    and "plain_step st" and "clear_flags s"
  shows "execute_loop V ([] # [] # sched) at_test s =
         execute_loop V sched at_test
           (s\<lparr>events := events s @ step_changed (current_step s) # step_effects st,
              current_step := Suc (current_step s)\<rparr>)"
  using assms
  by (simp add: execute_single_step_as_dict try_step_def plain_dispatch emit_def
      clear_flags_def)

lemma running_Suc: "running (Suc k) = [] # [] # running k"
  by (simp add: running_def)

lemma running_add: "running (a + b) = running a @ running b"
  by (simp add: running_def replicate_add distrib_left)

lemma body_run:
  assumes "take (length body) (drop (current_step s) (steps s)) = map as_dict body"
    and "current_step s + length body \<le> length (steps s)"
    and "list_all plain_step body"
    and "clear_flags s"
  shows "execute_loop V (running (length body) @ sched) at_test s =
         execute_loop V sched at_test
           (s\<lparr>events := events s @ body_events (current_step s) body,
              current_step := current_step s + length body\<rparr>)"
  using assms
proof (induction body arbitrary: s)
  case Nil
  then show ?case by (simp add: running_def)
next
  case (Cons st body)
  let ?pc = "current_step s"
  from Cons.prems(2) have lt: "?pc < length (steps s)" by simp
  from Cons.prems(1) lt have hd: "steps s ! ?pc = as_dict st"
    by (simp add: Cons_nth_drop_Suc[symmetric])
  from Cons.prems(1) lt have tl:
    "take (length body) (drop (Suc ?pc) (steps s)) = map as_dict body"
    by (simp add: Cons_nth_drop_Suc[symmetric])
  let ?s1 = "s\<lparr>events := events s @ step_changed ?pc # step_effects st,
              current_step := Suc ?pc\<rparr>"
  have "execute_loop V (running (length (st # body)) @ sched) at_test s =
        execute_loop V (running (length body) @ sched) at_test ?s1"
    using plain_iteration[OF lt hd _ Cons.prems(4), of V "running (length body) @ sched"]
      Cons.prems(3)
    by (simp add: running_Suc)
  also have "\<dots> = execute_loop V sched at_test
           (?s1\<lparr>events := events ?s1 @ body_events (current_step ?s1) body,
              current_step := current_step ?s1 + length body\<rparr>)"
    using Cons.prems tl by (intro Cons.IH) auto
  finally show ?case by simp
qed


lemma start_loop_iteration:
  assumes "current_step s < length (steps s)"
    and "steps s ! current_step s = as_dict st" and "function_name st = ''start_loop''"
    and "clear_flags s"
  shows "execute_loop V ([] # [] # sched) at_test s =
         execute_loop V sched at_test
           (s\<lparr>events := events s @ [step_changed (current_step s)],
              loop_stack := loop_stack s @
                [\<lparr>start_index = current_step s,
                  iterations = loop_iterations st,
                  current_iteration = 0\<rparr>],
              current_step := Suc (current_step s)\<rparr>)"
  using assms
  by (simp add: execute_single_step_as_dict try_step_def step_dispatch_def Let_def
      start_loop_def emit_def loop_iterations_def clear_flags_def)

lemma end_loop_iteration:
  assumes "current_step s < length (steps s)"
    and "steps s ! current_step s = as_dict st0" and "function_name st0 = ''end_loop''"
    and "loop_stack s = st @ [f]"
    and "clear_flags s"
  shows "execute_loop V ([] # [] # sched) at_test s =
         execute_loop V sched at_test
           (if current_iteration f + 1 < iterations f
            then s\<lparr>events := events s @ [step_changed (current_step s)],
                   loop_stack := st @ [f\<lparr>current_iteration := current_iteration f + 1\<rparr>],
                   current_step := Suc (start_index f)\<rparr>
            else s\<lparr>events := events s @ [step_changed (current_step s)],
                   loop_stack := st,
                   current_step := Suc (current_step s)\<rparr>)"
  using assms
  by (simp add: execute_single_step_as_dict try_step_def step_dispatch_def Let_def
      end_loop_def emit_def clear_flags_def)

text \<open>One pass: the body, then \<^verbatim>\<open>end_loop\<close>.\<close>

lemma loop_pass:
  assumes la: "loop_at (steps s) i n body"
    and pc: "current_step s = Suc i"
    and stk: "loop_stack s = st @ [\<lparr>start_index = i, iterations = n, current_iteration = c\<rparr>]"
    and fl: "clear_flags s"
  shows "execute_loop V (running (Suc (length body)) @ sched) at_test s =
         execute_loop V sched at_test
           (if c + 1 < n
            then s\<lparr>events := events s @ iteration_events i body,
                   loop_stack := st @ [\<lparr>start_index = i, iterations = n,
                                         current_iteration = c + 1\<rparr>],
                   current_step := Suc i\<rparr>
            else s\<lparr>events := events s @ iteration_events i body,
                   loop_stack := st,
                   current_step := Suc (Suc (i + length body))\<rparr>)"
proof -
  let ?s1 = "s\<lparr>events := events s @ body_events (current_step s) body,
              current_step := current_step s + length body\<rparr>"
  from la pc have b:
    "take (length body) (drop (current_step s) (steps s)) = map as_dict body"
    "current_step s + length body \<le> length (steps s)" "list_all plain_step body"
    by (auto simp: loop_at_def)
  from la obtain st0 where e:
    "steps s ! Suc (i + length body) = as_dict st0" "function_name st0 = ''end_loop''"
    by (auto simp: loop_at_def dest: keyedD)
  have "running (Suc (length body)) @ sched = running (length body) @ ([] # [] # sched)"
    using running_add[of "length body" 1] by (simp add: running_def numeral_2_eq_2)
  then have "execute_loop V (running (Suc (length body)) @ sched) at_test s =
        execute_loop V ([] # [] # sched) at_test ?s1"
    using body_run[OF b fl, of V "[] # [] # sched"] by simp
  moreover have "current_step ?s1 < length (steps ?s1)"
    "steps ?s1 ! current_step ?s1 = as_dict st0" "function_name st0 = ''end_loop''"
    "loop_stack ?s1 = st @ [\<lparr>start_index = i, iterations = n, current_iteration = c\<rparr>]"
    "clear_flags ?s1"
    using la pc stk fl e by (auto simp: loop_at_def)
  note end_loop_iteration[OF this, of V sched]
  ultimately show ?thesis using pc by (simp add: iteration_events_def)
qed

lemma loop_rounds:
  assumes "loop_at (steps s) i n body"
    and "current_step s = Suc i"
    and "loop_stack s = st @ [\<lparr>start_index = i, iterations = n, current_iteration = c\<rparr>]"
    and "int k = max 1 (n - c)"
    and "clear_flags s"
  shows "execute_loop V (running (k * Suc (length body)) @ sched) at_test s =
         execute_loop V sched at_test
           (s\<lparr>events := events s @ concat (replicate k (iteration_events i body)),
              loop_stack := st,
              current_step := Suc (Suc (i + length body))\<rparr>)"
  using assms
proof (induction k arbitrary: s c)
  case 0
  then show ?case by simp
next
  case (Suc k)
  have split: "running (Suc k * Suc (length body)) @ sched =
      running (Suc (length body)) @ (running (k * Suc (length body)) @ sched)"
    using running_add[of "Suc (length body)" "k * Suc (length body)"]
    by (simp add: add.commute add.left_commute)
  show ?case
  proof (cases "c + 1 < n")
    case True
    let ?s1 = "s\<lparr>events := events s @ iteration_events i body,
                   loop_stack := st @ [\<lparr>start_index = i, iterations = n,
                                         current_iteration = c + 1\<rparr>],
                   current_step := Suc i\<rparr>"
    from True Suc.prems(4) have k: "int k = max 1 (n - (c + 1))" by simp
    have "execute_loop V (running (Suc k * Suc (length body)) @ sched) at_test s =
          execute_loop V (running (k * Suc (length body)) @ sched) at_test ?s1"
      unfolding split using loop_pass[OF Suc.prems(1-3) Suc.prems(5)] True by simp
    also have "\<dots> = execute_loop V sched at_test
           (?s1\<lparr>events := events ?s1 @ concat (replicate k (iteration_events i body)),
              loop_stack := st,
              current_step := Suc (Suc (i + length body))\<rparr>)"
      by (rule Suc.IH[OF _ _ _ k]) (use Suc.prems in simp_all)
    finally show ?thesis by simp
  next
    case False
    with Suc.prems(4) have k: "k = 0" by simp
    show ?thesis
      unfolding split using loop_pass[OF Suc.prems(1-3) Suc.prems(5)] False k
      by (simp add: running_def)
  qed
qed

lemma loop_run:
  assumes la: "loop_at (steps s) i n body" and pc: "current_step s = i"
    and fl: "clear_flags s"
  shows "execute_loop V (running (Suc (nat (max 1 n) * Suc (length body))) @ sched) at_test s =
         execute_loop V sched at_test
           (s\<lparr>events := events s @ loop_events i n body,
              current_step := Suc (Suc (i + length body))\<rparr>)"
proof -
  from la pc obtain st0 where a: "current_step s < length (steps s)"
    "steps s ! current_step s = as_dict st0" "function_name st0 = ''start_loop''"
    and n: "loop_iterations st0 = n"
    by (auto simp: loop_at_def dest: keyedD)
  let ?s1 = "s\<lparr>events := events s @ [step_changed (current_step s)],
              loop_stack := loop_stack s @
                [\<lparr>start_index = current_step s,
                  iterations = loop_iterations st0,
                  current_iteration = 0\<rparr>],
              current_step := Suc (current_step s)\<rparr>"
  have "execute_loop V (running (Suc (nat (max 1 n) * Suc (length body))) @ sched) at_test s =
        execute_loop V (running (nat (max 1 n) * Suc (length body)) @ sched) at_test ?s1"
    using start_loop_iteration[OF a fl] by (simp add: running_Suc)
  also have "\<dots> = execute_loop V sched at_test
      (?s1\<lparr>events := events ?s1 @ concat (replicate (nat (max 1 n)) (iteration_events i body)),
         loop_stack := loop_stack s,
         current_step := Suc (Suc (i + length body))\<rparr>)"
    by (rule loop_rounds[where c = 0]) (use la pc n fl in auto)
  finally show ?thesis using pc by (simp add: loop_events_def)
qed

lemma count_step_effects: "count_list (step_effects st) (step_changed j) = 0"
  by (simp add: step_effects_def)

lemma count_body_events:
  "count_list (body_events base body) (step_changed j) =
     (if base \<le> j \<and> j < base + length body then 1 else 0)"
  by (induction body arbitrary: base) (auto simp: count_step_effects)

lemma count_concat_replicate:
  "count_list (concat (replicate k xs)) x = k * count_list xs x"
  by (induction k) simp_all

lemma count_loop_events_body:
  assumes "i < j" and "j \<le> i + length body"
  shows "count_list (loop_events i n body) (step_changed j) = nat (max 1 n)"
  using assms
  by (simp add: loop_events_def count_concat_replicate iteration_events_def count_body_events)

lemma count_loop_events_end:
  "count_list (loop_events i n body) (step_changed (Suc (i + length body))) = nat (max 1 n)"
  by (simp add: loop_events_def count_concat_replicate iteration_events_def count_body_events)

text \<open>
  Claim C3, as amended. When the loop of \<^verbatim>\<open>execute_steps\<close> reaches a
  \<^verbatim>\<open>start_loop\<close> with 3 iterations whose body, up to its \<^verbatim>\<open>end_loop\<close>, is made of
  plain steps (no pump step, no loop step, no step that raises), with neither stop nor
  pause set, and the GUI thread makes no call during the next
  \<open>1 + 3 * (length body + 1)\<close> iterations of the loop, then the run goes on from
  the step after \<^verbatim>\<open>end_loop\<close> with the loop stack as it was, having executed every
  body step exactly 3 times and \<^verbatim>\<open>end_loop\<close> 3 times, for a body of any length, also
  empty.
\<close>

theorem loop_body_runs_three_times:
  assumes "loop_at (steps s) i 3 body" and "current_step s = i" and "clear_flags s"
  shows "execute_loop V (running (Suc (3 * Suc (length body))) @ sched) at_test s =
           execute_loop V sched at_test
             (s\<lparr>events := events s @ loop_events i 3 body,
                current_step := Suc (Suc (i + length body))\<rparr>) \<and>
         (\<forall>j. i < j \<and> j \<le> i + length body \<longrightarrow>
            count_list (loop_events i 3 body) (step_changed j) = 3) \<and>
         count_list (loop_events i 3 body) (step_changed (Suc (i + length body))) = 3"
  using loop_run[OF assms, of V sched]
  by (simp add: count_loop_events_body count_loop_events_end)

lemma example_loop_at:
  "loop_at (steps (example_executor [start_loop_step n, wait_step 1, end_loop_step])) 0 n
     [wait_step 1]"
  by (simp add: loop_at_def example_executor_def StepExecutor_def start_loop_step_def
      wait_step_def end_loop_step_def loop_iterations_def params_get_def plain_step_def
      wait_time_def)

theorem loop_body_runs_three_times_witness:
  "loop_at (steps (example_executor [start_loop_step 3, wait_step 1, end_loop_step])) 0 3
     [wait_step 1] \<and>
   current_step (example_executor [start_loop_step 3, wait_step 1, end_loop_step]) = 0 \<and>
   clear_flags (example_executor [start_loop_step 3, wait_step 1, end_loop_step]) \<and>
   execute_loop accepting_vendor (running 7) at_test
       (example_executor [start_loop_step 3, wait_step 1, end_loop_step]) =
     Some (Inr (), (example_executor [start_loop_step 3, wait_step 1, end_loop_step])
       \<lparr>events :=
          [step_changed 0,
           step_changed 1, time_sleep 1, step_changed 2,
           step_changed 1, time_sleep 1, step_changed 2,
           step_changed 1, time_sleep 1, step_changed 2],
        current_step := 3\<rparr>) \<and>
   count_list (loop_events 0 3 [wait_step 1]) (step_changed 1) = 3"
proof -
  let ?ex = "example_executor [start_loop_step 3, wait_step 1, end_loop_step]"
  have la: "loop_at (steps ?ex) 0 3 [wait_step 1]" by (rule example_loop_at)
  have pc: "current_step ?ex = 0" by (simp add: example_executor_def StepExecutor_def)
  have ev: "loop_events 0 3 [wait_step 1] =
     [step_changed 0,
           step_changed 1, time_sleep 1, step_changed 2,
           step_changed 1, time_sleep 1, step_changed 2,
           step_changed 1, time_sleep 1, step_changed 2]"
    by (simp add: loop_events_def iteration_events_def step_effects_def wait_step_def
        wait_time_def params_get_def numeral_3_eq_3)
  have e0: "events ?ex = []" "length (steps ?ex) = 3"
    by (simp_all add: example_executor_def StepExecutor_def)
  have fl: "clear_flags ?ex"
    by (simp add: clear_flags_def example_executor_def StepExecutor_def)
  from loop_body_runs_three_times[OF la pc fl, of accepting_vendor "[]"] la pc fl
  show ?thesis by (simp add: ev e0)
qed

text \<open>The definitions that a concrete run unfolds.\<close>

lemmas run_defs =
  execute_steps_def initialize_pump_state_def execute_single_step_def try_step_def
  subscript_function_def subscript_params_def as_dict_def step_dispatch_def
  wait_def sleep_def start_loop_def end_loop_def params_get_def
  andthen_def connection_call_def connection_getattr_def call_method_def cached_method_def
  original_method_def make_cache_key_def make_param_value_def sorted_items_def reset_cache_def
  vendor_methods_def cacheable_methods_def emit_def example_executor_def StepExecutor_def
  fresh_connection_def default_config_def accepting_vendor_def Let_def running_def
  wait_step_def start_loop_step_def end_loop_step_def

text \<open>
  The claim as it stands fails on a body that raises and on a body that holds a loop.
  With a \<^verbatim>\<open>wait\<close> of -1 second in the body, \<^verbatim>\<open>time.sleep\<close> raises, the run
  stops there and the body step has been executed once. With an inner loop of 2
  iterations in the body, the step inside it is executed 6 times.
\<close>

theorem loop_body_runs_three_times_counterexample:
  "(\<exists>s'. execute_steps accepting_vendor (running 7)
         (example_executor [start_loop_step 3, wait_step (- 1), end_loop_step]) = Some s' \<and>
       events s' =
         [invoked ''setUnits'' [PStr ''mL/min''], invoked ''setDiameter'' [PFloat 28.6],
          step_changed 0, step_changed 1,
          error_occurred ''Step 2: sleep length must be non-negative'',
          execution_finished] \<and>
       count_list (events s') (step_changed 1) = 1) \<and>
   (\<exists>s'. execute_steps accepting_vendor (running 19)
         (example_executor
            [start_loop_step 3, start_loop_step 2, wait_step 0, end_loop_step, end_loop_step]) =
         Some s' \<and>
       count_list (events s') (step_changed 2) = 6)"
  by (simp add: run_defs numeral_eq_Suc str_nat.simps)


lemma end_loop_pops_nonpositive:
  assumes "n \<le> 0"
    and "loop_stack t = st @ [\<lparr>start_index = a, iterations = n, current_iteration = 0\<rparr>]"
  shows "end_loop t = t\<lparr>loop_stack := st\<rparr>"
  using assms by (simp add: end_loop_def Let_def)

text \<open>
  Claim C10, as amended. A \<^verbatim>\<open>start_loop\<close> whose iterations are zero or negative: the
  first \<^verbatim>\<open>end_loop\<close> that finds its frame with the counter at 0 raises the counter to
  1, which is not below the target, and pops the frame without going back. So when the
  body, up to its \<^verbatim>\<open>end_loop\<close>, is made of plain steps (no pump step, no loop step,
  no step that raises), neither stop nor pause is set and the GUI thread makes no call
  during the next \<open>length body + 2\<close> iterations of the loop, every body step is
  executed exactly once, and the run goes on from the step after \<^verbatim>\<open>end_loop\<close>.
\<close>

theorem nonpositive_loop_runs_body_once:
  fixes s :: "'h step_executor"
  assumes "n \<le> 0" and "loop_at (steps s) i n body" and "current_step s = i"
    and "clear_flags s"
  shows "execute_loop V (running (Suc (Suc (length body))) @ sched) at_test s =
           execute_loop V sched at_test
             (s\<lparr>events := events s @
                  step_changed i # body_events (Suc i) body @
                  [step_changed (Suc (i + length body))],
                current_step := Suc (Suc (i + length body))\<rparr>) \<and>
         (\<forall>j. i < j \<and> j \<le> i + length body \<longrightarrow>
            count_list (step_changed i # body_events (Suc i) body @
                  [step_changed (Suc (i + length body))]) (step_changed j) = 1) \<and>
         (\<forall>(t :: 'h step_executor) st a. loop_stack t = st @
                [\<lparr>start_index = a, iterations = n, current_iteration = 0\<rparr>] \<longrightarrow>
            end_loop t = t\<lparr>loop_stack := st\<rparr>)"
proof -
  from assms(1) have m: "nat (max 1 n) = 1" by simp
  have ev: "loop_events i n body =
      step_changed i # body_events (Suc i) body @ [step_changed (Suc (i + length body))]"
    by (simp add: loop_events_def m iteration_events_def)
  have "execute_loop V (running (Suc (Suc (length body))) @ sched) at_test s =
           execute_loop V sched at_test
             (s\<lparr>events := events s @ loop_events i n body,
                current_step := Suc (Suc (i + length body))\<rparr>)"
    using loop_run[OF assms(2,3,4), of V sched] by (simp add: m)
  moreover have "count_list (loop_events i n body) (step_changed j) = 1"
    if "i < j \<and> j \<le> i + length body" for j
    using count_loop_events_body[of i j body n] that by (simp add: m)
  ultimately show ?thesis
    using end_loop_pops_nonpositive[OF assms(1)] unfolding ev by blast
qed

theorem nonpositive_loop_runs_body_once_witness:
  "(0::int) \<le> 0 \<and>
   loop_at (steps (example_executor [start_loop_step 0, wait_step 1, end_loop_step])) 0 0
     [wait_step 1] \<and>
   current_step (example_executor [start_loop_step 0, wait_step 1, end_loop_step]) = 0 \<and>
   clear_flags (example_executor [start_loop_step 0, wait_step 1, end_loop_step]) \<and>
   execute_loop accepting_vendor (running 3) at_test
       (example_executor [start_loop_step 0, wait_step 1, end_loop_step]) =
     Some (Inr (), (example_executor [start_loop_step 0, wait_step 1, end_loop_step])
       \<lparr>events := [step_changed 0, step_changed 1, time_sleep 1, step_changed 2],
        current_step := 3\<rparr>)"
proof -
  let ?ex = "example_executor [start_loop_step 0, wait_step 1, end_loop_step]"
  have la: "loop_at (steps ?ex) 0 0 [wait_step 1]" by (rule example_loop_at)
  have pc: "current_step ?ex = 0" by (simp add: example_executor_def StepExecutor_def)
  have ev: "step_effects (wait_step 1) = [time_sleep 1]"
    by (simp add: step_effects_def wait_step_def wait_time_def params_get_def)
  have e0: "events ?ex = []" "length (steps ?ex) = 3"
    by (simp_all add: example_executor_def StepExecutor_def)
  have fl: "clear_flags ?ex"
    by (simp add: clear_flags_def example_executor_def StepExecutor_def)
  from nonpositive_loop_runs_body_once[OF order_refl la pc fl, of accepting_vendor "[]"] la pc fl
  show ?thesis by (simp add: ev e0 numeral_3_eq_3 numeral_2_eq_2)
qed

text \<open>
  The claim as it stands fails on a body that raises and on a run that is stopped. With
  a \<^verbatim>\<open>wait\<close> of -1 second as the first of two body steps, the run ends there and the
  second body step is never executed. With \<^verbatim>\<open>stop\<close> called while
  \<^verbatim>\<open>start_loop\<close> executes, the loop ends before the body, which is executed zero
  times.
\<close>

theorem nonpositive_loop_runs_body_once_counterexample:
  "(\<exists>s'. execute_steps accepting_vendor (running 4)
         (example_executor [start_loop_step 0, wait_step (- 1), wait_step 1, end_loop_step]) =
         Some s' \<and>
       events s' =
         [invoked ''setUnits'' [PStr ''mL/min''], invoked ''setDiameter'' [PFloat 28.6],
          step_changed 0, step_changed 1,
          error_occurred ''Step 2: sleep length must be non-negative'',
          execution_finished] \<and>
       count_list (events s') (step_changed 2) = 0) \<and>
   (\<exists>s'. execute_steps accepting_vendor [[], [], [call_stop]]
         (example_executor [start_loop_step 0, wait_step 1, end_loop_step]) = Some s' \<and>
       events s' =
         [invoked ''setUnits'' [PStr ''mL/min''], invoked ''setDiameter'' [PFloat 28.6],
          step_changed 0, invoked ''stopPump'' [], execution_finished] \<and>
       count_list (events s') (step_changed 1) = 0)"
  by (simp add: run_defs stop_def numeral_eq_Suc str_nat.simps)
section \<open>Runs: failure, stop and termination\<close>

lemma advances_refl: "advances k s s"
  by (simp add: advances_def)

lemma advances_trans: "advances j a b \<Longrightarrow> advances k b c \<Longrightarrow> advances (j + k) a c"
  by (auto simp: advances_def)

lemma advances_mono: "advances j a b \<Longrightarrow> j \<le> k \<Longrightarrow> advances k a b"
  by (auto simp: advances_def)

lemma effects_no_signal:
  "list_all is_effect ev \<Longrightarrow> execution_finished \<notin> set ev \<and> filter is_step_changed ev = []"
proof (induction ev)
  case Nil
  then show ?case by simp
next
  case (Cons e ev)
  then show ?case by (cases e) auto
qed

lemma extends_advances: "extends s s' \<Longrightarrow> advances 0 s s'"
  by (auto simp: extends_def advances_def dest: effects_no_signal)

lemma sleep_cases:
  "sleep d s = (r, s') \<Longrightarrow>
     (r = Inl (ValueError ''sleep length must be non-negative'') \<and> s' = s \<and> d < 0) \<or>
     (r = Inr () \<and> s' = emit (time_sleep d) s \<and> 0 \<le> d)"
  by (auto simp: sleep_def split: if_splits)

lemma step_dispatch_raises:
  assumes "step_dispatch V st s = (Inl e, s')"
  shows "steps s' = steps s \<and> current_step s' = current_step s \<and> loop_stack s' = loop_stack s \<and>
         stop_event s' = stop_event s \<and> pause_event s' = pause_event s \<and>
         (\<exists>ev. events s' = events s @ ev \<and> list_all is_effect ev)"
proof -
  consider (pump) "function_name st = ''pump_volume'' \<or> function_name st = ''pump_time''"
    | (wait) "function_name st = ''wait''"
    | (other) "function_name st \<noteq> ''pump_volume''" "function_name st \<noteq> ''pump_time''"
        "function_name st \<noteq> ''wait''"
    by blast
  then show ?thesis
  proof cases
    case pump
    from pump_step_dispatch[OF pump, of V s] assms show ?thesis
      by (auto simp: extends_def)
  next
    case wait
    with assms show ?thesis
      by (auto simp: step_dispatch_def Let_def wait_def dest!: sleep_cases)
  next
    case other
    with assms show ?thesis
      by (auto simp: step_dispatch_def Let_def split: if_splits)
  qed
qed

text \<open>What a step that returns normally can have done.\<close>

lemma step_dispatch_returns:
  assumes "step_dispatch V st s = (Inr u, s')"
  shows "(function_name st = ''wait'' \<and> s' = emit (time_sleep (wait_time st)) s) \<or>
         (function_name st = ''start_loop'' \<and> s' = start_loop (loop_iterations st) s) \<or>
         (function_name st = ''end_loop'' \<and> s' = end_loop s) \<or>
         (function_name st \<notin> {''pump_volume'', ''pump_time'', ''wait'', ''start_loop'', ''end_loop''}
            \<and> s' = s)"
proof -
  consider (pump) "function_name st = ''pump_volume'' \<or> function_name st = ''pump_time''"
    | (wait) "function_name st = ''wait''"
    | (other) "function_name st \<noteq> ''pump_volume''" "function_name st \<noteq> ''pump_time''"
        "function_name st \<noteq> ''wait''"
    by blast
  then show ?thesis
  proof cases
    case pump
    from pump_step_dispatch[OF pump, of V s] assms show ?thesis by auto
  next
    case wait
    with assms show ?thesis
      by (auto simp: step_dispatch_def Let_def wait_def wait_time_def dest!: sleep_cases)
  next
    case other
    with assms show ?thesis
      by (auto simp: step_dispatch_def Let_def loop_iterations_def split: if_splits)
  qed
qed

lemma start_loop_fields:
  "steps (start_loop n s) = steps s" "events (start_loop n s) = events s"
  "current_step (start_loop n s) = current_step s"
  by (simp_all add: start_loop_def)

lemma end_loop_fields:
  "steps (end_loop s) = steps s" "events (end_loop s) = events s"
  by (simp_all add: end_loop_def Let_def)

lemma try_step_failure:
  assumes "step_dispatch V st s = (Inl e, s1)"
  shows "try_step V st s =
           (False, emit (error_occurred
              (''Step '' @ str_nat (current_step s + 1) @ '': '' @ str_exc e)) s1)"
  using assms step_dispatch_raises[OF assms]
  by (simp add: try_step_def)

lemma try_step_advances:
  "advances 0 s (snd (try_step V st s))"
proof (cases "step_dispatch V st s")
  case (Pair r s1)
  show ?thesis
  proof (cases r)
    case (Inl e)
    with Pair step_dispatch_raises[of V st s e s1] show ?thesis
      by (auto simp: try_step_def advances_def emit_def dest: effects_no_signal)
  next
    case (Inr u)
    with Pair step_dispatch_returns[of V st s u s1] show ?thesis
      by (auto simp: try_step_def advances_def emit_def start_loop_fields
          end_loop_fields)
  qed
qed

lemma start_loop_flags:
  "stop_event (start_loop n s) = stop_event s" "pause_event (start_loop n s) = pause_event s"
  by (simp_all add: start_loop_def)

lemma end_loop_flags:
  "stop_event (end_loop s) = stop_event s" "pause_event (end_loop s) = pause_event s"
  by (simp_all add: end_loop_def Let_def)

text \<open>Executing a step leaves the flags alone: only the GUI thread sets them.\<close>

lemma try_step_flags:
  "stop_event (snd (try_step V st s)) = stop_event s \<and>
   pause_event (snd (try_step V st s)) = pause_event s"
proof (cases "step_dispatch V st s")
  case (Pair r s1)
  show ?thesis
  proof (cases r)
    case (Inl e)
    with Pair step_dispatch_raises[of V st s e s1] show ?thesis
      by (simp add: try_step_def emit_def)
  next
    case (Inr u)
    with Pair step_dispatch_returns[of V st s u s1] show ?thesis
      by (auto simp: try_step_def emit_def start_loop_flags end_loop_flags)
  qed
qed

text \<open>
  A dictionary that lacks a key makes \<^verbatim>\<open>execute_single_step\<close> raise before anything
  has happened; one that has both keys is handed to the \<^verbatim>\<open>try\<close> statement.
\<close>

lemma execute_single_step_lacking:
  assumes "read_step d = None"
  shows "execute_single_step V d s =
           (Inl (KeyError (if function_key d = None then ''function'' else ''params'')), s)"
  using assms
  by (auto simp: read_step_def execute_single_step_def subscript_function_def
      subscript_params_def andthen_def split: option.splits)

lemma execute_single_step_cases:
  "(read_step d = None \<and>
    execute_single_step V d s =
      (Inl (KeyError (if function_key d = None then ''function'' else ''params'')), s)) \<or>
   (\<exists>st. d = as_dict st \<and>
      execute_single_step V d s = (Inr (fst (try_step V st s)), snd (try_step V st s)))"
proof (cases "read_step d")
  case None
  then show ?thesis using execute_single_step_lacking by blast
next
  case (Some st)
  then have "d = as_dict st" by (rule read_step_Some)
  then show ?thesis using execute_single_step_as_dict by blast
qed

lemma execute_single_step_Inr:
  assumes "execute_single_step V d s = (Inr ok, s1)"
  shows "\<exists>st. d = as_dict st \<and> try_step V st s = (ok, s1)"
proof (cases "read_step d")
  case None
  from execute_single_step_lacking[OF this, of V s] assms show ?thesis by simp
next
  case (Some st)
  then have d: "d = as_dict st" by (rule read_step_Some)
  with assms have "try_step V st s = (ok, s1)"
    by (cases "try_step V st s") (simp add: execute_single_step_as_dict)
  with d show ?thesis by blast
qed

lemma execute_single_step_advances:
  "advances 0 s (snd (execute_single_step V d s))"
  using execute_single_step_cases[of d V s] try_step_advances[of s V]
  by (auto simp: advances_refl)

lemma execute_single_step_flags:
  "stop_event (snd (execute_single_step V d s)) = stop_event s \<and>
   pause_event (snd (execute_single_step V d s)) = pause_event s"
  using execute_single_step_cases[of d V s] try_step_flags[of V _ s]
  by auto

text \<open>What a call from the GUI thread does to the executor.\<close>

lemma gui_call_effect:
  "steps (gui_call V c s) = steps s \<and> current_step (gui_call V c s) = current_step s \<and>
   loop_stack (gui_call V c s) = loop_stack s \<and>
   stop_event (gui_call V c s) = (stop_event s \<or> c = call_stop) \<and>
   pause_event (gui_call V c s) = pause_after (pause_event s) [c] \<and>
   (\<exists>ev. events (gui_call V c s) = events s @ ev \<and> list_all is_effect ev)"
proof (cases c)
  case call_stop
  let ?g = "s\<lparr>stop_event := True\<rparr>"
  obtain r s' where c: "connection_call V ''stopPump'' [] ?g = (r, s')" by force
  have "''stopPump'' \<in> set vendor_methods" by (simp add: vendor_methods_def)
  from connection_call_effect[OF c this] c call_stop show ?thesis
    by (cases r) (auto simp: stop_def Let_def andthen_def vendor_methods_def)
next
  case call_pause
  let ?g = "s\<lparr>pause_event := True\<rparr>"
  obtain r s' where c: "connection_call V ''pausePump'' [] ?g = (r, s')" by force
  have "''pausePump'' \<in> set vendor_methods" by (simp add: vendor_methods_def)
  from connection_call_effect[OF c this] c call_pause show ?thesis
    by (cases r) (auto simp: pause_def Let_def andthen_def vendor_methods_def)
next
  case call_resume
  then show ?thesis by (simp add: resume_def)
qed

lemma pause_after_append: "pause_after p (xs @ ys) = pause_after (pause_after p xs) ys"
  by (induction p xs rule: pause_after.induct) simp_all

lemma pause_after_Cons: "pause_after p (c # calls) = pause_after (pause_after p [c]) calls"
  using pause_after_append[of p "[c]" calls] by simp

lemma gui_calls_effect:
  "steps (fold (gui_call V) calls s) = steps s \<and>
   current_step (fold (gui_call V) calls s) = current_step s \<and>
   loop_stack (fold (gui_call V) calls s) = loop_stack s \<and>
   stop_event (fold (gui_call V) calls s) = (stop_event s \<or> call_stop \<in> set calls) \<and>
   pause_event (fold (gui_call V) calls s) = pause_after (pause_event s) calls \<and>
   (\<exists>ev. events (fold (gui_call V) calls s) = events s @ ev \<and> list_all is_effect ev)"
proof (induction calls arbitrary: s)
  case Nil
  then show ?case by simp
next
  case (Cons c calls)
  from gui_call_effect[of V c s] Cons.IH[of "gui_call V c s"] show ?case
    by (auto simp: pause_after_Cons[of "pause_event s" c calls])
qed

lemma gui_calls_advances: "advances 0 s (fold (gui_call V) calls s)"
  using gui_calls_effect[of V calls s]
  by (auto simp: advances_def dest: effects_no_signal)

lemma no_pause_after: "call_pause \<notin> set calls \<Longrightarrow> \<not> p \<Longrightarrow> \<not> pause_after p calls"
  by (induction p calls rule: pause_after.induct) simp_all

lemma gui_calls_unpaused:
  "call_pause \<notin> set calls \<Longrightarrow> \<not> pause_event s \<Longrightarrow> \<not> pause_event (fold (gui_call V) calls s)"
  using gui_calls_effect[of V calls s] no_pause_after[of calls "pause_event s"] by simp

text \<open>The worker emits at most one step-changed signal for each look at the flags.\<close>

lemma execute_loop_advances:
  "execute_loop V schedule w s = Some (r, s') \<Longrightarrow> advances (length schedule) s s'"
proof (induction schedule arbitrary: w s)
  case Nil
  then show ?case by (auto simp: advances_refl split: if_splits)
next
  case (Cons calls schedule)
  let ?g = "fold (gui_call V) calls s"
  have g: "advances 0 s ?g" by (rule gui_calls_advances)
  have later: "advances (length (calls # schedule)) s s'"
    if "execute_loop V schedule w' ?g = Some (r, s')" for w'
    using advances_trans[OF g Cons.IH[OF that]] by (rule advances_mono) simp
  show ?case
  proof (cases w)
    case at_test
    show ?thesis
    proof (cases "current_step ?g < length (steps ?g) \<and> \<not> stop_event ?g")
      case True
      with Cons.prems at_test show ?thesis by (intro later[of at_is_set]) (simp add: Let_def)
    next
      case False
      with Cons.prems at_test have "s' = ?g" by (auto simp: Let_def)
      with g show ?thesis by (auto intro: advances_mono)
    qed
  next
    case at_is_set
    show ?thesis
    proof (cases "pause_event ?g")
      case True
      with Cons.prems at_is_set show ?thesis by (intro later[of at_wait]) (simp add: Let_def)
    next
      case False
      let ?s0 = "emit (step_changed (current_step ?g)) ?g"
      obtain res s1 where st: "execute_single_step V (steps ?g ! current_step ?g) ?s0 = (res, s1)"
        by force
      have a0: "advances 1 ?g ?s0" by (simp add: advances_def emit_def)
      from execute_single_step_advances[of ?s0 V "steps ?g ! current_step ?g"] st
      have a1: "advances 0 ?s0 s1" by simp
      from advances_trans[OF g advances_trans[OF a0 a1]] have a01: "advances 1 s s1" by simp
      show ?thesis
      proof (cases "res = Inr True")
        case True
        let ?s2 = "s1\<lparr>current_step := current_step s1 + 1\<rparr>"
        from True Cons.prems at_is_set False st
        have "execute_loop V schedule at_test ?s2 = Some (r, s')" by (simp add: Let_def)
        from Cons.IH[OF this] have a2: "advances (length schedule) ?s2 s'" .
        have "advances 0 s1 ?s2" by (simp add: advances_def)
        from advances_trans[OF advances_trans[OF a01 this] a2] show ?thesis by simp
      next
        case ne: False
        with Cons.prems at_is_set False st have "s' = s1"
          by (cases res) (auto simp: Let_def split: bool.splits)
        with a01 show ?thesis by (auto intro: advances_mono)
      qed
    qed
  next
    case at_wait
    show ?thesis
    proof (cases "pause_event ?g")
      case True
      with Cons.prems at_wait show ?thesis by (intro later[of at_test]) (simp add: Let_def)
    next
      case False
      with Cons.prems at_wait show ?thesis by (intro later[of blocked]) (simp add: Let_def)
    qed
  next
    case blocked
    show ?thesis
    proof (cases "call_pause \<in> set calls")
      case True
      with Cons.prems blocked show ?thesis by (intro later[of at_test]) (simp add: Let_def)
    next
      case False
      with Cons.prems blocked show ?thesis by (intro later[of blocked]) (simp add: Let_def)
    qed
  qed
qed

lemma initialize_pump_state_extends:
  "extends s (snd (initialize_pump_state V s))"
proof -
  let ?s0 = "s\<lparr>exec_connection := reset_cache (exec_connection s)\<rparr>"
  have e0: "extends s ?s0" by (simp add: extends_def reset_cache_def)
  obtain r s' where eq: "initialize_pump_state V s = (r, s')" by force
  then have eq': "andthen (connection_call V ''setUnits'' [PStr ''mL/min''] ?s0) (\<lambda>_ s.
         andthen (connection_call V ''setDiameter'' [diameter (exec_config s)] s) (\<lambda>_ s.
           (Inr (), s))) = (r, s')"
    by (simp add: initialize_pump_state_def Let_def)
  have "extends ?s0 s'"
    using eq'
    apply (rule andthen_extends)
     apply (erule connection_call_extends, simp add: setters_def)
    apply (rule andthen_extends[OF surjective_pairing])
     apply (erule connection_call_extends, simp add: setters_def)
    apply (simp add: extends_refl)
    done
  with e0 eq show ?thesis by (auto intro: extends_trans)
qed

lemma execute_steps_finishes:
  assumes "execute_steps V schedule s = Some s'"
  shows "steps s' = steps s \<and>
         (\<exists>ev. events s' = events s @ ev @ [execution_finished] \<and>
               execution_finished \<notin> set ev)"
proof -
  obtain r s1 where init: "initialize_pump_state V s = (r, s1)" by force
  from initialize_pump_state_extends[of s V] init have "extends s s1" by simp
  then have a1: "advances 0 s s1" by (rule extends_advances)
  show ?thesis
  proof (cases r)
    case (Inl e)
    with init assms have "s' = emit execution_finished (emit (error_occurred (str_exc e)) s1)"
      by (simp add: execute_steps_def)
    with a1 show ?thesis by (auto simp: advances_def emit_def)
  next
    case (Inr u)
    with init assms obtain res s2 where
      loop: "execute_loop V schedule at_test (s1\<lparr>current_step := 0\<rparr>) = Some (res, s2)"
      and s': "s' = (case res of Inl e \<Rightarrow> emit execution_finished
                       (emit (error_occurred (str_exc e)) s2)
                     | Inr _ \<Rightarrow> emit execution_finished s2)"
      by (auto simp: execute_steps_def split: option.splits sum.splits)
    from execute_loop_advances[OF loop]
    have "advances (length schedule) (s1\<lparr>current_step := 0\<rparr>) s2" .
    moreover have "advances 0 s1 (s1\<lparr>current_step := 0\<rparr>)" by (simp add: advances_def)
    ultimately have "advances (length schedule) s s2"
      using advances_trans[OF advances_trans[OF a1]] by fastforce
    with s' show ?thesis by (cases res) (auto simp: advances_def emit_def)
  qed
qed



text \<open>
  A worker blocked in \<^verbatim>\<open>pause_event.wait()\<close> stays there as long as \<^verbatim>\<open>pause\<close> is
  not called, whatever else the GUI thread calls.
\<close>

lemma blocked_stays: "never_paused schedule \<Longrightarrow> execute_loop V schedule blocked s = None"
  by (induction schedule arbitrary: s) (simp_all add: never_paused_def Let_def)

lemma potential_drop:
  "pc < length sts \<Longrightarrow>
     potential n (drop pc sts) =
       dict_rounds (sts ! pc) * Suc (n + potential n (drop (Suc pc) sts)) +
       potential n (drop (Suc pc) sts)"
  by (simp add: Cons_nth_drop_Suc[symmetric])

lemma run_measure_next:
  assumes "current_step s < length (steps s)"
    and "steps s1 = steps s" and "loop_stack s1 = loop_stack s"
    and "current_step s1 = current_step s"
  shows "run_measure (s1\<lparr>current_step := current_step s1 + 1\<rparr>) < run_measure s"
  using assms by (simp add: run_measure_def potential_drop)

lemma run_measure_start_loop:
  assumes "current_step s < length (steps s)"
    and "steps s ! current_step s = as_dict st" and "function_name st = ''start_loop''"
  shows "run_measure ((start_loop (loop_iterations st) s)
           \<lparr>current_step := current_step s + 1\<rparr>) < run_measure s"
  using assms
  by (simp add: run_measure_def potential_drop start_loop_def frame_weight_def
      dict_rounds_def extra_rounds_def)

lemma run_measure_end_loop:
  assumes pc: "current_step s < length (steps s)"
  shows "run_measure ((end_loop s)\<lparr>current_step := current_step (end_loop s) + 1\<rparr>)
           < run_measure s"
proof (cases "loop_stack s = []")
  case True
  then have "end_loop s = s" by (simp add: end_loop_def)
  with run_measure_next[OF pc, of s] show ?thesis by simp
next
  case False
  then obtain st f where stk: "loop_stack s = st @ [f]"
    by (metis append_butlast_last_id)
  let ?n = "length (steps s)"
  let ?w = "Suc (?n + potential ?n (drop (Suc (start_index f)) (steps s)))"
  show ?thesis
  proof (cases "current_iteration f + 1 < iterations f")
    case jump: True
    let ?f' = "f\<lparr>current_iteration := current_iteration f + 1\<rparr>"
    have el: "end_loop s = s\<lparr>loop_stack := st @ [?f'], current_step := start_index f\<rparr>"
      using stk jump by (simp add: end_loop_def Let_def)
    define r where "r = nat (iterations f - current_iteration f - 2)"
    from jump have r: "nat (iterations f - current_iteration f - 1) = Suc r"
      "nat (iterations f - (current_iteration f + 1) - 1) = r"
      unfolding r_def by linarith+
    have fw: "frame_weight (steps s) f = Suc r * ?w" "frame_weight (steps s) ?f' = r * ?w"
      using r by (simp_all add: frame_weight_def)
    have new: "run_measure ((end_loop s)\<lparr>current_step := current_step (end_loop s) + 1\<rparr>) =
        sum_list (map (frame_weight (steps s)) st) + r * ?w +
        potential ?n (drop (Suc (start_index f)) (steps s)) + (?n - Suc (start_index f))"
      by (simp add: el run_measure_def fw)
    have old: "run_measure s \<ge>
        sum_list (map (frame_weight (steps s)) st) + Suc r * ?w + 1"
      using pc by (simp add: run_measure_def stk fw)
    have "r * ?w + potential ?n (drop (Suc (start_index f)) (steps s)) + (?n - Suc (start_index f))
        < Suc r * ?w + 1"
      by simp
    with new old show ?thesis by linarith
  next
    case pop: False
    have el: "end_loop s = s\<lparr>loop_stack := st\<rparr>"
      using stk pop by (simp add: end_loop_def Let_def)
    show ?thesis using pc by (simp add: el run_measure_def stk potential_drop)
  qed
qed

lemma run_measure_emit: "run_measure (emit e s) = run_measure s"
  by (simp add: run_measure_def emit_def)

lemma run_measure_step:
  assumes pc: "current_step s < length (steps s)"
    and ok: "execute_single_step V (steps s ! current_step s)
               (emit (step_changed (current_step s)) s) = (Inr True, s1)"
  shows "run_measure (s1\<lparr>current_step := current_step s1 + 1\<rparr>) < run_measure s"
proof -
  let ?s0 = "emit (step_changed (current_step s)) s"
  from execute_single_step_Inr[OF ok] obtain st where
    st: "steps s ! current_step s = as_dict st" and t: "try_step V st ?s0 = (True, s1)"
    by blast
  have s0: "steps ?s0 = steps s" "current_step ?s0 = current_step s"
    "loop_stack ?s0 = loop_stack s"
    by (simp_all add: emit_def)
  from t obtain u where d: "step_dispatch V st ?s0 = (Inr u, s1)"
    by (auto simp: try_step_def split: prod.splits sum.splits)
  from step_dispatch_returns[OF d]
  consider (wait) "s1 = emit (time_sleep (wait_time st)) ?s0"
    | (start) "function_name st = ''start_loop''" "s1 = start_loop (loop_iterations st) ?s0"
    | (finish) "s1 = end_loop ?s0"
    | (other) "s1 = ?s0"
    by blast
  then show ?thesis
  proof cases
    case wait
    then show ?thesis using run_measure_next[OF pc, of s1] by (simp add: emit_def)
  next
    case start
    with run_measure_start_loop[of ?s0 st] pc s0 st show ?thesis
      by (simp add: run_measure_emit start_loop_fields)
  next
    case finish
    with run_measure_end_loop[of ?s0] pc s0 show ?thesis
      by (simp add: run_measure_emit)
  next
    case other
    then show ?thesis using run_measure_next[OF pc, of s1] by (simp add: emit_def)
  qed
qed

lemma run_measure_gui_calls: "run_measure (fold (gui_call V) calls s) = run_measure s"
  using gui_calls_effect[of V calls s] by (simp add: run_measure_def)

lemma run_measure_positive: "current_step s < length (steps s) \<Longrightarrow> 0 < run_measure s"
  by (simp add: run_measure_def)

text \<open>
  A run on which \<^verbatim>\<open>pause\<close> is never called leaves the loop within twice
  \<open>run_measure\<close> looks at the flags.
\<close>

lemma execute_loop_terminates:
  "\<not> pause_event s \<Longrightarrow> never_paused schedule \<Longrightarrow>
     (2 * run_measure s < length schedule \<longrightarrow>
        (\<exists>res. execute_loop V schedule at_test s = Some res)) \<and>
     (current_step s < length (steps s) \<and> 2 * run_measure s \<le> length schedule \<longrightarrow>
        (\<exists>res. execute_loop V schedule at_is_set s = Some res))"
proof (induction schedule arbitrary: s)
  case Nil
  then show ?case using run_measure_positive[of s] by auto
next
  case (Cons calls schedule)
  let ?g = "fold (gui_call V) calls s"
  from Cons.prems have np: "\<not> pause_event ?g"
    by (intro gui_calls_unpaused) (simp_all add: never_paused_def)
  from Cons.prems have nv: "never_paused schedule" by (simp add: never_paused_def)
  have m: "run_measure ?g = run_measure s" by (rule run_measure_gui_calls)
  have pc: "current_step ?g = current_step s" "steps ?g = steps s"
    using gui_calls_effect[of V calls s] by simp_all
  note ih = Cons.IH[OF _ nv]
  have "\<exists>res. execute_loop V (calls # schedule) at_test s = Some res"
    if "2 * run_measure s < length (calls # schedule)"
  proof (cases "current_step ?g < length (steps ?g) \<and> \<not> stop_event ?g")
    case False
    then show ?thesis by (auto simp: Let_def)
  next
    case True
    with that m have "current_step ?g < length (steps ?g) \<and>
        2 * run_measure ?g \<le> length schedule" by simp
    with ih[OF np] True show ?thesis by (simp add: Let_def)
  qed
  moreover have "\<exists>res. execute_loop V (calls # schedule) at_is_set s = Some res"
    if "current_step s < length (steps s) \<and> 2 * run_measure s \<le> length (calls # schedule)"
  proof -
    let ?s0 = "emit (step_changed (current_step ?g)) ?g"
    obtain res s1 where st: "execute_single_step V (steps ?g ! current_step ?g) ?s0 = (res, s1)"
      by force
    show ?thesis
    proof (cases "res = Inr True")
      case True
      let ?s2 = "s1\<lparr>current_step := current_step s1 + 1\<rparr>"
      from that pc have "current_step ?g < length (steps ?g)" by simp
      from run_measure_step[OF this] True st have "run_measure ?s2 < run_measure ?g" by simp
      with that m have "2 * run_measure ?s2 < length schedule" by simp
      moreover from execute_single_step_flags[of V "steps ?g ! current_step ?g" ?s0] st np
      have "\<not> pause_event ?s2" by (simp add: emit_def)
      ultimately obtain r where "execute_loop V schedule at_test ?s2 = Some r"
        using ih[of ?s2] by blast
      with True np st show ?thesis by (simp add: Let_def)
    next
      case False
      with np st show ?thesis by (cases res) (auto simp: Let_def split: bool.splits)
    qed
  qed
  ultimately show ?case by blast
qed

lemma initialize_pump_state_measure:
  "run_measure ((snd (initialize_pump_state V s))\<lparr>current_step := 0\<rparr>) =
     run_measure (s\<lparr>current_step := 0\<rparr>) \<and>
   pause_event (snd (initialize_pump_state V s)) = pause_event s"
  using initialize_pump_state_extends[of s V]
  by (simp add: extends_def run_measure_def)

lemma execute_steps_terminates:
  assumes "\<not> pause_event s" and "never_paused schedule"
    and "2 * run_measure (s\<lparr>current_step := 0\<rparr>) < length schedule"
  shows "\<exists>s'. execute_steps V schedule s = Some s'"
proof -
  obtain r s1 where init: "initialize_pump_state V s = (r, s1)" by force
  with initialize_pump_state_measure[of V s] assms
  have "\<not> pause_event (s1\<lparr>current_step := 0\<rparr>)"
    "2 * run_measure (s1\<lparr>current_step := 0\<rparr>) < length schedule" by simp_all
  with execute_loop_terminates[OF this(1) assms(2), of V]
  obtain res where "execute_loop V schedule at_test (s1\<lparr>current_step := 0\<rparr>) = Some res"
    by blast
  with init show ?thesis
    by (cases r; cases res; cases "fst res") (auto simp: execute_steps_def)
qed


text \<open>
  Claim C6, as amended. When the dispatch of a step that has both keys raises,
  \<^verbatim>\<open>execute_single_step\<close> emits the error signal \<^verbatim>\<open>Step N: message\<close>, with \<open>N\<close> the
  step index plus one, and returns \<^verbatim>\<open>False\<close>; in the loop of \<^verbatim>\<open>execute_steps\<close> that
  iteration is the last one, whatever the schedule holds afterwards, and the step index
  stays where it was. A step dictionary that lacks a key makes
  \<^verbatim>\<open>execute_single_step\<close> raise \<^verbatim>\<open>KeyError\<close> instead, with no signal of its
  own. Every run of \<^verbatim>\<open>execute_steps\<close> that returns has emitted the finished signal
  exactly once, as its last event. And a run on which \<^verbatim>\<open>pause\<close> is never called
  returns within twice \<open>run_measure\<close> looks at the flags.
\<close>

theorem step_failure_reported_and_run_finishes:
  "(step_dispatch V st s = (Inl e, s1) \<longrightarrow>
      execute_single_step V (as_dict st) s =
        (Inr False, emit (error_occurred
           (''Step '' @ str_nat (current_step s + 1) @ '': '' @ str_exc e)) s1)) \<and>
   (current_step s < length (steps s) \<and> clear_flags s \<and>
    steps s ! current_step s = as_dict st \<and>
    step_dispatch V st (emit (step_changed (current_step s)) s) = (Inl e, s1) \<longrightarrow>
      execute_loop V ([] # [] # schedule) at_test s =
        Some (Inr (), emit (error_occurred
           (''Step '' @ str_nat (current_step s + 1) @ '': '' @ str_exc e)) s1) \<and>
      current_step s1 = current_step s) \<and>
   (read_step d = None \<longrightarrow>
      execute_single_step V d s =
        (Inl (KeyError (if function_key d = None then ''function'' else ''params'')), s)) \<and>
   (execute_steps V schedule s = Some s' \<longrightarrow>
      count_list (new_events s s') execution_finished = 1 \<and>
      last (events s') = execution_finished) \<and>
   (\<not> pause_event s \<and> never_paused schedule \<and>
    2 * run_measure (s\<lparr>current_step := 0\<rparr>) < length schedule \<longrightarrow>
      (\<exists>s'. execute_steps V schedule s = Some s'))"
proof (intro conjI impI)
  assume "step_dispatch V st s = (Inl e, s1)"
  from try_step_failure[OF this]
  show "execute_single_step V (as_dict st) s =
        (Inr False, emit (error_occurred
           (''Step '' @ str_nat (current_step s + 1) @ '': '' @ str_exc e)) s1)"
    by (simp add: execute_single_step_as_dict)
next
  assume a: "current_step s < length (steps s) \<and> clear_flags s \<and>
    steps s ! current_step s = as_dict st \<and>
    step_dispatch V st (emit (step_changed (current_step s)) s) = (Inl e, s1)"
  then have d: "step_dispatch V st (emit (step_changed (current_step s)) s) = (Inl e, s1)"
    by simp
  from try_step_failure[OF d] a
  show "execute_loop V ([] # [] # schedule) at_test s =
        Some (Inr (), emit (error_occurred
           (''Step '' @ str_nat (current_step s + 1) @ '': '' @ str_exc e)) s1)"
    by (simp add: execute_single_step_as_dict emit_def clear_flags_def)
  from step_dispatch_raises[OF d] show "current_step s1 = current_step s"
    by (simp add: emit_def)
next
  assume "read_step d = None"
  then show "execute_single_step V d s =
        (Inl (KeyError (if function_key d = None then ''function'' else ''params'')), s)"
    by (rule execute_single_step_lacking)
next
  assume a: "execute_steps V schedule s = Some s'"
  from execute_steps_finishes[OF a] obtain ev where
    ev: "events s' = events s @ ev @ [execution_finished]" "execution_finished \<notin> set ev"
    by blast
  then show "count_list (new_events s s') execution_finished = 1"
    by (simp add: new_events_def count_list_0_iff)
  from ev show "last (events s') = execution_finished" by simp
next
  assume "\<not> pause_event s \<and> never_paused schedule \<and>
    2 * run_measure (s\<lparr>current_step := 0\<rparr>) < length schedule"
  then show "\<exists>s'. execute_steps V schedule s = Some s'"
    using execute_steps_terminates by blast
qed

theorem step_failure_reported_and_run_finishes_witness:
  "step_dispatch accepting_vendor (wait_step (- 1))
       (example_executor [wait_step (- 1), wait_step 1]) =
     (Inl (ValueError ''sleep length must be non-negative''),
      example_executor [wait_step (- 1), wait_step 1]) \<and>
   execute_single_step accepting_vendor (as_dict (wait_step (- 1)))
       (example_executor [wait_step (- 1), wait_step 1]) =
     (Inr False, emit (error_occurred ''Step 1: sleep length must be non-negative'')
        (example_executor [wait_step (- 1), wait_step 1])) \<and>
   read_step \<lparr>function_key = None, params_key = Some Map.empty\<rparr> = None \<and>
   execute_single_step accepting_vendor \<lparr>function_key = None, params_key = Some Map.empty\<rparr>
       (example_executor [wait_step (- 1), wait_step 1]) =
     (Inl (KeyError ''function''), example_executor [wait_step (- 1), wait_step 1]) \<and>
   \<not> pause_event (example_executor [wait_step (- 1), wait_step 1]) \<and>
   never_paused (running 3) \<and>
   2 * run_measure ((example_executor [wait_step (- 1), wait_step 1])\<lparr>current_step := 0\<rparr>)
     < length (running 3) \<and>
   (\<exists>s'. execute_steps accepting_vendor (running 3)
           (example_executor [wait_step (- 1), wait_step 1]) = Some s' \<and>
         count_list (new_events (example_executor [wait_step (- 1), wait_step 1]) s')
           execution_finished = 1 \<and>
         last (events s') = execution_finished)"
proof -
  let ?ex = "example_executor [wait_step (- 1), wait_step 1]"
  let ?e = "ValueError ''sleep length must be non-negative''"
  let ?d = "\<lparr>function_key = None, params_key = Some Map.empty\<rparr> :: step_dict"
  have d: "step_dispatch accepting_vendor (wait_step (- 1)) ?ex = (Inl ?e, ?ex)"
    by (simp add: step_dispatch_def wait_def sleep_def wait_step_def params_get_def Let_def)
  have r: "read_step ?d = None" by (simp add: read_step_def)
  have m: "\<not> pause_event ?ex" "never_paused (running 3)"
    "2 * run_measure (?ex\<lparr>current_step := 0\<rparr>) < length (running 3)"
    by (simp_all add: run_measure_def running_def example_executor_def never_paused_def
        StepExecutor_def dict_rounds_def extra_rounds_def wait_step_def list_all_iff)
  have pc: "current_step ?ex = 0" by (simp add: example_executor_def StepExecutor_def)
  from step_failure_reported_and_run_finishes[where V = accepting_vendor and s = ?ex
      and schedule = "running 3"] m
  obtain s' where s': "execute_steps accepting_vendor (running 3) ?ex = Some s'" by blast
  from step_failure_reported_and_run_finishes[where V = accepting_vendor
      and st = "wait_step (- 1)" and s = ?ex and e = ?e and ?s1.0 = ?ex and d = ?d
      and schedule = "running 3" and s' = s'] d s' m pc r
  show ?thesis by (simp add: str_nat.simps)
qed

text \<open>
  The claim as it stands fails on a step that lacks a key, which \<^verbatim>\<open>load_program\<close>
  accepts from a program file. For the program \<^verbatim>\<open>[{"params": {}}]\<close> the subscript
  \<^verbatim>\<open>step['function']\<close> raises before the \<^verbatim>\<open>try\<close>: \<^verbatim>\<open>execute_single_step\<close> raises
  instead of returning \<^verbatim>\<open>False\<close>, and the only error signal of the run is the one of
  \<^verbatim>\<open>execute_steps\<close>, whose text is the quoted key, with no step number.
\<close>

theorem step_failure_reported_and_run_finishes_counterexample:
  "execute_single_step accepting_vendor \<lparr>function_key = None, params_key = Some Map.empty\<rparr>
       (StepExecutor [\<lparr>function_key = None, params_key = Some Map.empty\<rparr>]
          fresh_connection default_config) =
     (Inl (KeyError ''function''),
      StepExecutor [\<lparr>function_key = None, params_key = Some Map.empty\<rparr>]
          fresh_connection default_config) \<and>
   (\<exists>s'. execute_steps accepting_vendor (running 1)
           (StepExecutor [\<lparr>function_key = None, params_key = Some Map.empty\<rparr>]
              fresh_connection default_config) = Some s' \<and>
         events s' =
           [invoked ''setUnits'' [PStr ''mL/min''], invoked ''setDiameter'' [PFloat 28.6],
            step_changed 0, error_occurred (quoted ''function''), execution_finished])"
  by (simp add: run_defs numeral_eq_Suc)





section \<open>The program file\<close>

text \<open>A value that JSON knows comes back from its document as it went in.\<close>

lemma those_map_Some:
  "(\<And>x. x \<in> set xs \<Longrightarrow> f x = Some (g x)) \<Longrightarrow> those (map f xs) = Some (map g xs)"
  by (induction xs) simp_all

lemma fold_dict_set:
  "distinct (map fst (acc @ kvs)) \<Longrightarrow> fold (\<lambda>(k, v). dict_set k v) kvs acc = acc @ kvs"
proof (induction kvs arbitrary: acc)
  case Nil
  then show ?case by simp
next
  case (Cons kv kvs)
  obtain k v where kv: "kv = (k, v)" by (cases kv)
  from Cons.prems kv have "k \<notin> fst ` set acc" by auto
  then have "dict_set k v acc = acc @ [(k, v)]" by (simp add: dict_set_def)
  moreover from Cons.prems kv have "distinct (map fst ((acc @ [(k, v)]) @ kvs))" by simp
  ultimately show ?case using Cons.IH[of "acc @ [(k, v)]"] kv by simp
qed

lemma dict_of_distinct: "distinct (map fst kvs) \<Longrightarrow> dict_of kvs = kvs"
  using fold_dict_set[of "[]" kvs] by (simp add: dict_of_def)

lemma json_round_trip:
  "json_like v \<Longrightarrow> \<exists>j. json_dump v = Some j \<and> json_load j = v"
proof (induction v)
  case (PList xs)
  have "those (map json_dump xs) = Some (map (the \<circ> json_dump) xs)"
    by (rule those_map_Some) (use PList in \<open>force simp: list_all_iff\<close>)
  moreover have "map json_load (map (the \<circ> json_dump) xs) = xs"
    by (rule map_idI[THEN trans[OF map_map]]) (use PList in \<open>force simp: list_all_iff\<close>)
  ultimately show ?case by simp
next
  case (PDict kvs)
  have each: "\<exists>j. json_dump v = Some j \<and> json_load j = v" if "(k, v) \<in> set kvs" for k v
    using PDict.IH[OF that] that PDict.prems by (force simp: list_all_iff)
  let ?g = "\<lambda>(k, v). (k, the (json_dump v))"
  have "those (map (\<lambda>(k, j). map_option (Pair k) j) (map (map_prod id json_dump) kvs)) =
      Some (map ?g kvs)"
    unfolding map_map by (rule those_map_Some) (use each in force)
  moreover have "map (map_prod id json_load) (map ?g kvs) = kvs"
    unfolding map_map by (rule map_idI) (use each in force)
  moreover from PDict.prems have "distinct (map fst kvs)" by simp
  ultimately show ?case by (simp add: dict_of_distinct)
qed simp_all

lemma number_json_like: "is_number x \<Longrightarrow> json_like x"
  by (cases x) simp_all

lemma params_json_like: "is_params ps \<Longrightarrow> json_like ps"
  by (cases ps) (force simp: list_all_iff intro: number_json_like)+

lemma step_json_like:
  assumes "is_step st"
  shows "json_like st"
proof (cases st)
  case (PDict kvs)
  with assms have d: "distinct (map fst kvs)"
    and keys: "set (map fst kvs) = {''function'', ''params''}"
    and f: "\<exists>f. map_of kvs ''function'' = Some (PStr f)"
    and p: "\<exists>ps. map_of kvs ''params'' = Some ps \<and> is_params ps"
    by (auto split: option.splits pyval.splits)
  have "json_like v" if "(k, v) \<in> set kvs" for k v
  proof -
    from that d have m: "map_of kvs k = Some v" by simp
    from that keys have "k = ''function'' \<or> k = ''params''" by force
    with m f p show ?thesis by (auto dest: params_json_like)
  qed
  with d PDict show ?thesis by (auto simp: list_all_iff)
qed (use assms in simp_all)

lemma step_list_json_like: "is_step_list v \<Longrightarrow> json_like v"
  by (cases v) (auto simp: list_all_iff dest: step_json_like)

text \<open>
  Claim C9. The program is a step list and the user saves it to a file (the dialog is
  not cancelled): the dump completes and the success box is shown. When the same file
  is loaded later, from a state in which the file still holds what was saved,
  \<^verbatim>\<open>self.steps\<close> is the saved list again: the same steps in the same order, each with
  the same function and the same parameters, integers and floats as they were;
  whether or not the refresh of the table completes.
\<close>

theorem save_then_load_program:
  assumes "is_step_list (gui_steps g)" and "file_path \<noteq> []"
    and "files g' file_path = files (snd (save_program file_path g)) file_path"
  shows "fst (save_program file_path g) = Some information \<and>
         gui_steps (snd (load_program update_steps_table file_path g')) = gui_steps g"
proof -
  from json_round_trip[OF step_list_json_like[OF assms(1)]] obtain j where
    j: "json_dump (gui_steps g) = Some j" "json_load j = gui_steps g" by blast
  with assms(2) have s: "save_program file_path g =
      (Some information, g\<lparr>files := (files g)(file_path \<mapsto> Document j)\<rparr>)"
    by (simp add: save_program_def dump_to_file_def)
  with assms(3) have "load_from_file file_path (files g') = Some (gui_steps g)"
    by (simp add: load_from_file_def j)
  with assms(2) s show ?thesis
    by (simp add: load_program_def Let_def auto_save_steps_def)
qed

theorem save_then_load_program_witness:
  "is_step_list (gui_steps example_gui) \<and> ''program.json'' \<noteq> [] \<and>
   fst (save_program ''program.json'' example_gui) = Some information \<and>
   gui_steps (snd (load_program (\<lambda>v. True) ''program.json''
      ((snd (save_program ''program.json'' example_gui))\<lparr>gui_steps := PList []\<rparr>))) =
     example_program"
  using save_then_load_program[where g = example_gui and file_path = "''program.json''"
      and g' = "(snd (save_program ''program.json'' example_gui))\<lparr>gui_steps := PList []\<rparr>"
      and update_steps_table = "\<lambda>v. True"]
  by (simp add: example_gui_def example_program_def step_functions_def)

end
